theory Spec2Isabelle
  imports Complex_Main "HOL-Library.Log_Nat"
begin

section \<open>Strings and numbers of the scripts\<close>

text \<open>
  Addresses and patterns are strings of one-byte characters (base58 text). JavaScript's
  \<open>toLowerCase\<close> is modelled on them: the letters A..Z move to a..z, every other
  character stays.
\<close>

definition toLowerChar :: "char \<Rightarrow> char" where
  "toLowerChar c =
     (let n = (of_char c :: nat) in if 65 \<le> n \<and> n \<le> 90 then char_of (n + 32) else c)"

definition toLowerCase :: "string \<Rightarrow> string" where
  "toLowerCase s = map toLowerChar s"

definition startsWith :: "string \<Rightarrow> string \<Rightarrow> bool" where
  "startsWith s p = (take (length p) s = p)"

definition endsWith :: "string \<Rightarrow> string \<Rightarrow> bool" where
  "endsWith s p = (length p \<le> length s \<and> drop (length s - length p) s = p)"

text \<open>
  A JavaScript number is an IEEE 754 double: a finite value, which is a rational number,
  or one of the three special values. The sign of a zero is not kept.
\<close>

datatype jsnum = Num rat | PosInfinity | NegInfinity | NaN

text \<open>
  Every arithmetic operation computes the exact result and rounds it to the nearest
  double, a tie going to the even significand. A double has a significand of 53 bits and
  an exponent from \<open>-1022\<close> to \<open>1023\<close>; below \<open>2 powi (-1022)\<close> the spacing stays that
  of the subnormal numbers, and a rounded magnitude that reaches \<open>2 powi 1024\<close> is an
  infinity. \<open>expo q\<close> is the exponent of a positive rational: the \<open>e\<close> with
  \<open>2 powi e \<le> q < 2 powi (e + 1)\<close>.
\<close>

definition expo :: "rat \<Rightarrow> int" where
  "expo q =
     (let (a, b) = quotient_of q; k = bitlen a - bitlen b
      in if 2 powi k \<le> q then k else k - 1)"

definition roundHalfEven :: "rat \<Rightarrow> int" where
  "roundHalfEven m =
     (let f = \<lfloor>m\<rfloor>; r = m - of_int f
      in if r < 1 / 2 then f else if 1 / 2 < r then f + 1 else if even f then f else f + 1)"

definition roundDouble :: "rat \<Rightarrow> jsnum" where
  "roundDouble q =
     (if q = 0 then Num 0
      else
        let e = max (expo \<bar>q\<bar>) (- 1022);
            ulp = 2 powi (e - 52);
            r = of_int (roundHalfEven (\<bar>q\<bar> / ulp)) * ulp
        in if 2 powi 1024 \<le> r then (if 0 < q then PosInfinity else NegInfinity)
           else Num (sgn q * r))"

fun js_neg :: "jsnum \<Rightarrow> jsnum" where
  "js_neg (Num q) = Num (- q)"
| "js_neg PosInfinity = NegInfinity"
| "js_neg NegInfinity = PosInfinity"
| "js_neg NaN = NaN"

fun js_add :: "jsnum \<Rightarrow> jsnum \<Rightarrow> jsnum" where
  "js_add NaN y = NaN"
| "js_add x NaN = NaN"
| "js_add (Num a) (Num b) = roundDouble (a + b)"
| "js_add PosInfinity NegInfinity = NaN"
| "js_add NegInfinity PosInfinity = NaN"
| "js_add PosInfinity y = PosInfinity"
| "js_add NegInfinity y = NegInfinity"
| "js_add (Num a) y = y"

definition js_sub :: "jsnum \<Rightarrow> jsnum \<Rightarrow> jsnum" where
  "js_sub x y = js_add x (js_neg y)"

fun js_mul :: "jsnum \<Rightarrow> jsnum \<Rightarrow> jsnum" where
  "js_mul NaN y = NaN"
| "js_mul x NaN = NaN"
| "js_mul (Num a) (Num b) = roundDouble (a * b)"
| "js_mul (Num a) y = (if a = 0 then NaN else if 0 < a then y else js_neg y)"
| "js_mul x (Num b) = (if b = 0 then NaN else if 0 < b then x else js_neg x)"
| "js_mul PosInfinity y = y"
| "js_mul NegInfinity y = js_neg y"

fun js_div :: "jsnum \<Rightarrow> jsnum \<Rightarrow> jsnum" where
  "js_div NaN y = NaN"
| "js_div x NaN = NaN"
| "js_div (Num a) (Num b) =
     (if b = 0 then (if a = 0 then NaN else if 0 < a then PosInfinity else NegInfinity)
      else roundDouble (a / b))"
| "js_div (Num a) y = Num 0"
| "js_div x (Num b) = (if 0 \<le> b then x else js_neg x)"
| "js_div x y = NaN"

fun js_lt :: "jsnum \<Rightarrow> jsnum \<Rightarrow> bool" where
  "js_lt NaN y = False"
| "js_lt x NaN = False"
| "js_lt (Num a) (Num b) = (a < b)"
| "js_lt x PosInfinity = (x \<noteq> PosInfinity)"
| "js_lt PosInfinity y = False"
| "js_lt NegInfinity y = (y \<noteq> NegInfinity)"
| "js_lt x NegInfinity = False"

fun js_floor :: "jsnum \<Rightarrow> jsnum" where
  "js_floor (Num q) = Num (of_int \<lfloor>q\<rfloor>)"
| "js_floor x = x"

fun isFinite :: "jsnum \<Rightarrow> bool" where
  "isFinite (Num q) = True"
| "isFinite x = False"

section \<open>2-wallet/wallet.ts: the vanity search\<close>

subsection \<open>Key pairs\<close>

text \<open>
  A key pair of the SDK is determined by its secret key bytes; the address text of its
  public key is computed by the SDK. That function is not part of this repository and is
  a parameter \<open>addr\<close> of the model. \<open>Keypair.generate()\<close> draws the secret key from the
  worker's random source, which is the list of secret keys a worker is given.
\<close>

type_synonym bytes = "nat list"

record Keypair =
  publicKey :: string
  secretKey :: bytes

definition fromSecretKey :: "(bytes \<Rightarrow> string) \<Rightarrow> bytes \<Rightarrow> Keypair" where
  "fromSecretKey addr sk = \<lparr>publicKey = addr sk, secretKey = sk\<rparr>"

subsection \<open>The worker script\<close>

record workerData =
  wd_prefix :: "string option"
  wd_suffix :: "string option"
  wd_caseSensitive :: bool
  wd_threadId :: nat

datatype message =
    FoundMsg string bytes int   \<comment> \<open>found: publicKey, secretKey, attempts\<close>
  | ProgressMsg int             \<comment> \<open>progress: attempts\<close>

text \<open>A string is truthy in JavaScript when it is present and not empty.\<close>

fun truthyStr :: "string option \<Rightarrow> bool" where
  "truthyStr None = False"
| "truthyStr (Some s) = (s \<noteq> [])"

definition searchPrefix :: "workerData \<Rightarrow> string" where
  "searchPrefix wd =
     (if truthyStr (wd_prefix wd)
      then (if wd_caseSensitive wd then the (wd_prefix wd) else toLowerCase (the (wd_prefix wd)))
      else [])"

definition searchSuffix :: "workerData \<Rightarrow> string" where
  "searchSuffix wd =
     (if truthyStr (wd_suffix wd)
      then (if wd_caseSensitive wd then the (wd_suffix wd) else toLowerCase (the (wd_suffix wd)))
      else [])"

definition checkAddress :: "workerData \<Rightarrow> string \<Rightarrow> bool" where
  "checkAddress wd address =
     (let a = (if wd_caseSensitive wd then address else toLowerCase address) in
      if searchPrefix wd \<noteq> [] \<and> \<not> startsWith a (searchPrefix wd) then False
      else if searchSuffix wd \<noteq> [] \<and> \<not> endsWith a (searchSuffix wd) then False
      else True)"

definition progressInterval :: int where
  "progressInterval = 1000"

text \<open>
  The \<open>while (true)\<close> loop of the worker, run on the keys its random source yields. The
  loop ends by itself only at a match; a list that runs out is a worker that is stopped
  from outside while it is still searching. The result is the messages posted, in order.
\<close>

fun workerLoop :: "(bytes \<Rightarrow> string) \<Rightarrow> workerData \<Rightarrow> int \<Rightarrow> bytes list \<Rightarrow> message list" where
  "workerLoop addr wd attempts [] = []"
| "workerLoop addr wd attempts (sk # rest) =
     (let attempts' = attempts + 1;
          pk = publicKey (fromSecretKey addr sk)
      in if checkAddress wd pk then [FoundMsg pk sk attempts']
         else (if attempts' mod progressInterval = 0 then [ProgressMsg progressInterval] else [])
              @ workerLoop addr wd attempts' rest)"

definition workerScript :: "(bytes \<Rightarrow> string) \<Rightarrow> workerData \<Rightarrow> bytes list \<Rightarrow> message list" where
  "workerScript addr wd keys = workerLoop addr wd 0 keys"

subsection \<open>The coordinator: generateVanityWallet\<close>

record options =
  prefix :: "string option"
  suffix :: "string option"
  caseSensitive :: "bool option"
  threadsCount :: "int option"
  timeout :: "int option"

record env =
  isMainThread :: bool
  cpus :: nat          \<comment> \<open>os.cpus().length\<close>
  now :: int           \<comment> \<open>Date.now() when the search starts, in milliseconds\<close>

datatype error =
    NotMainThread      \<comment> \<open>the function may only be called on the main thread\<close>
  | InvalidRequest     \<comment> \<open>a prefix or a suffix must be given\<close>
  | SearchTimeout      \<comment> \<open>the search timed out\<close>

datatype 'a promise = Pending | Resolved 'a | Rejected error

text \<open>Settling a promise: only the first \<open>resolve\<close> or \<open>reject\<close> has an effect.\<close>

fun resolve :: "'a \<Rightarrow> 'a promise \<Rightarrow> 'a promise" where
  "resolve v Pending = Resolved v"
| "resolve v p = p"

fun reject :: "error \<Rightarrow> 'a promise \<Rightarrow> 'a promise" where
  "reject e Pending = Rejected e"
| "reject e p = p"

record worker =
  data :: workerData
  terminated :: bool

datatype printed =
    LogStart int bool                 \<comment> \<open>threads started, case sensitive\<close>
  | LogPrefix string
  | LogSuffix string
  | ProgressLine int jsnum            \<comment> \<open>attempts so far, rate per second\<close>
  | LogTimeout int                    \<comment> \<open>timeout in ms\<close>
  | LogFound int                      \<comment> \<open>total attempts reported with the match\<close>
  | LogWorkerError nat                \<comment> \<open>thread number\<close>
  | LogWorkerExit nat int             \<comment> \<open>thread number, exit code\<close>

text \<open>
  The variables the promise executor closes over, and the two timers of the runtime:
  \<open>timerPending\<close> holds while the \<open>setTimeout\<close> timer is armed and neither fired nor
  cleared, \<open>intervalActive\<close> while the \<open>setInterval\<close> timer is not cleared.
\<close>

record coord =
  workers :: "worker list"
  walletFound :: bool
  totalAttempts :: int
  startTime :: int
  timeoutMs :: int
  timerPending :: bool
  intervalActive :: bool
  outcome :: "Keypair promise"
  console :: "printed list"

text \<open>A number is truthy when it is present and not zero (\<open>options.x || default\<close>).\<close>

fun orDefault :: "int option \<Rightarrow> int \<Rightarrow> int" where
  "orDefault None d = d"
| "orDefault (Some n) d = (if n = 0 then d else n)"

definition effThreadsCount :: "env \<Rightarrow> options \<Rightarrow> int" where
  "effThreadsCount e opts = orDefault (threadsCount opts) (max 1 (int (cpus e) - 1))"

definition effTimeout :: "options \<Rightarrow> int" where
  "effTimeout opts = orDefault (timeout opts) 60000"

definition effCaseSensitive :: "options \<Rightarrow> bool" where
  "effCaseSensitive opts = (case caseSensitive opts of None \<Rightarrow> True | Some b \<Rightarrow> b)"

definition spawn :: "options \<Rightarrow> bool \<Rightarrow> nat \<Rightarrow> worker" where
  "spawn opts cs i =
     \<lparr>data = \<lparr>wd_prefix = prefix opts, wd_suffix = suffix opts,
              wd_caseSensitive = cs, wd_threadId = i\<rparr>,
      terminated = False\<rparr>"

text \<open>
  The call up to the point where the promise is returned: both checks, the defaults, the
  start of the interval timer, the timeout timer when the timeout is positive, and the
  loop that starts the workers (\<open>i\<close> from 0 while \<open>i < threadsCount\<close>).
\<close>

definition generateVanityWallet :: "env \<Rightarrow> options \<Rightarrow> error + coord" where
  "generateVanityWallet e opts =
     (if \<not> isMainThread e then Inl NotMainThread
      else if \<not> truthyStr (prefix opts) \<and> \<not> truthyStr (suffix opts) then Inl InvalidRequest
      else
        let n = effThreadsCount e opts;
            t = effTimeout opts;
            cs = effCaseSensitive opts
        in Inr \<lparr>workers = map (spawn opts cs) [0 ..< nat n],
                walletFound = False,
                totalAttempts = 0,
                startTime = now e,
                timeoutMs = t,
                timerPending = (0 < t),
                intervalActive = True,
                outcome = Pending,
                console = [LogStart n cs]
                  @ (if truthyStr (prefix opts) then [LogPrefix (the (prefix opts))] else [])
                  @ (if truthyStr (suffix opts) then [LogSuffix (the (suffix opts))] else [])\<rparr>)"

text \<open>The number of workers a call has started; a call that throws has started none.\<close>

fun spawned :: "error + coord \<Rightarrow> nat" where
  "spawned (Inl err) = 0"
| "spawned (Inr c) = length (workers c)"

subsection \<open>The callbacks\<close>

definition terminateAll :: "worker list \<Rightarrow> worker list" where
  "terminateAll ws = map (\<lambda>w. w\<lparr>terminated := True\<rparr>) ws"

definition terminateOne :: "nat \<Rightarrow> worker list \<Rightarrow> worker list" where
  "terminateOne i ws = (if i < length ws then ws[i := (ws ! i)\<lparr>terminated := True\<rparr>] else ws)"

text \<open>
  \<open>updateProgress\<close>, called by the interval timer; \<open>t\<close> is \<open>Date.now()\<close> at the call.
  The attempt count and the clock readings are integers; the subtraction and the two
  divisions are those of doubles.
\<close>

definition rate :: "int \<Rightarrow> int \<Rightarrow> int \<Rightarrow> jsnum" where
  "rate attempts start t =
     (let elapsedSec = js_div (js_sub (Num (of_int t)) (Num (of_int start))) (Num 1000)
      in js_floor (js_div (Num (of_int attempts)) elapsedSec))"

definition updateProgress :: "int \<Rightarrow> coord \<Rightarrow> coord" where
  "updateProgress t c =
     c\<lparr>console := console c @ [ProgressLine (totalAttempts c) (rate (totalAttempts c) (startTime c) t)]\<rparr>"

text \<open>The callback given to \<open>setTimeout\<close>.\<close>

definition onTimeout :: "coord \<Rightarrow> coord" where
  "onTimeout c =
     c\<lparr>intervalActive := False,
       console := console c @ [LogTimeout (timeoutMs c)],
       workers := terminateAll (workers c),
       outcome := reject SearchTimeout (outcome c)\<rparr>"

text \<open>
  \<open>worker.on('message')\<close> of every worker. \<open>Keypair.fromSecretKey\<close> is taken as
  succeeding: the secret keys that arrive are those \<open>Keypair.generate()\<close> produced.
\<close>

fun onMessage :: "(bytes \<Rightarrow> string) \<Rightarrow> message \<Rightarrow> coord \<Rightarrow> coord" where
  "onMessage addr (FoundMsg pk sk attempts) c =
     (if \<not> walletFound c then
        c\<lparr>walletFound := True,
          intervalActive := False,
          console := console c @ [LogFound (totalAttempts c + attempts)],
          workers := terminateAll (workers c),
          timerPending := False,
          outcome := resolve (fromSecretKey addr sk) (outcome c)\<rparr>
      else c)"
| "onMessage addr (ProgressMsg attempts) c = c\<lparr>totalAttempts := totalAttempts c + attempts\<rparr>"

text \<open>\<open>worker.on('error')\<close> and \<open>worker.on('exit')\<close> of worker \<open>i\<close>.\<close>

definition onError :: "nat \<Rightarrow> coord \<Rightarrow> coord" where
  "onError i c =
     (let c' = c\<lparr>console := console c @ [LogWorkerError (i + 1)]\<rparr>
      in if \<not> walletFound c then c'\<lparr>workers := terminateOne i (workers c')\<rparr> else c')"

definition onExit :: "nat \<Rightarrow> int \<Rightarrow> coord \<Rightarrow> coord" where
  "onExit i code c =
     (if code \<noteq> 0 \<and> \<not> walletFound c
      then c\<lparr>console := console c @ [LogWorkerExit (i + 1) code]\<rparr> else c)"

subsection \<open>The event loop\<close>

text \<open>
  What the runtime can deliver to the coordinator. A worker event reaches a callback only
  for a worker that was started; the timeout callback runs only while its timer is armed,
  and once; the interval callback only until \<open>clearInterval\<close>.
\<close>

datatype event =
    Message nat message
  | WorkerError nat
  | WorkerExit nat int
  | TimeoutFires
  | IntervalFires int      \<comment> \<open>Date.now() at the tick\<close>

fun step :: "(bytes \<Rightarrow> string) \<Rightarrow> event \<Rightarrow> coord \<Rightarrow> coord" where
  "step addr (Message i m) c = (if i < length (workers c) then onMessage addr m c else c)"
| "step addr (WorkerError i) c = (if i < length (workers c) then onError i c else c)"
| "step addr (WorkerExit i code) c = (if i < length (workers c) then onExit i code c else c)"
| "step addr TimeoutFires c = (if timerPending c then onTimeout (c\<lparr>timerPending := False\<rparr>) else c)"
| "step addr (IntervalFires t) c = (if intervalActive c then updateProgress t c else c)"

fun run :: "(bytes \<Rightarrow> string) \<Rightarrow> event list \<Rightarrow> coord \<Rightarrow> coord" where
  "run addr [] c = c"
| "run addr (ev # evs) c = run addr evs (step addr ev c)"

section \<open>SDK calls of the token and transfer scripts\<close>

text \<open>
  The blockchain client library and the network are not part of this repository. Each call
  the scripts make into them is a field of the record \<open>chain\<close>: a total function that
  returns the value or the error the call throws. A public key is identified by its
  base58 text.
\<close>

type_synonym PublicKey = string

datatype tx_error =
    SdkFailure string              \<comment> \<open>any error thrown by the library or the network\<close>
  | InvalidRecipient               \<comment> \<open>the recipient address is not a valid wallet address\<close>
  | InsufficientBalance int jsnum  \<comment> \<open>balance too low: current balance (lamports), amount asked (SOL)\<close>

record mintInfo =
  decimals :: nat

record instruction =
  fromPubkey :: PublicKey
  toPubkey :: PublicKey
  lamports :: int

record transaction =
  instructions :: "instruction list"
  feePayer :: "PublicKey option"
  recentBlockhash :: "string option"

text \<open>
  \<open>systemTransfer\<close> is \<open>SystemProgram.transfer\<close>: it encodes the lamports as an unsigned
  64-bit integer when the instruction is built, and throws for a number it cannot encode.
  The balances are the numbers the network answers with, which are integers.
\<close>

record chain =
  newPublicKey :: "string \<Rightarrow> tx_error + PublicKey"
  isOnCurve :: "PublicKey \<Rightarrow> bool"
  keypairFromSecret :: "string \<Rightarrow> tx_error + Keypair"   \<comment> \<open>bs58.decode, then Keypair.fromSecretKey\<close>
  getAssociatedTokenAddress :: "PublicKey \<Rightarrow> PublicKey \<Rightarrow> tx_error + PublicKey"
  getMint :: "PublicKey \<Rightarrow> tx_error + mintInfo"
  getTokenAccountBalance :: "PublicKey \<Rightarrow> tx_error + nat"  \<comment> \<open>value.amount, a decimal string\<close>
  getBalance :: "PublicKey \<Rightarrow> tx_error + int"
  systemTransfer :: "PublicKey \<Rightarrow> PublicKey \<Rightarrow> jsnum \<Rightarrow> tx_error + instruction"
  getLatestBlockhash :: "tx_error + string"
  simulateTransaction :: "transaction \<Rightarrow> tx_error + string"
  sendAndConfirmTransaction :: "transaction \<Rightarrow> tx_error + string"

datatype effect =
    ConsoleError tx_error
  | LogTransferStart jsnum PublicKey string   \<comment> \<open>amount, sender, recipient address\<close>
  | LogSimulation string
  | LogSuccess string                         \<comment> \<open>transaction signature\<close>
  | LogSolscanLink string                     \<comment> \<open>link to the signature\<close>
  | Constructed transaction
  | Simulated transaction
  | Submitted transaction

subsection \<open>getTokenBalance\<close>

datatype address = AsString string | AsKey PublicKey

fun toPublicKey :: "chain \<Rightarrow> address \<Rightarrow> tx_error + PublicKey" where
  "toPublicKey ch (AsString s) = newPublicKey ch s"
| "toPublicKey ch (AsKey k) = Inr k"

record tokenBalance =
  balance :: jsnum
  tokenAccount :: string

text \<open>
  The two conversions of the arguments come before the \<open>try\<close>: an error there is thrown
  as it is. Inside, an error of the address derivation or of the mint lookup is printed and
  thrown again; an error of the balance lookup is caught by the inner \<open>catch\<close>. The
  balance is the amount, read as a number, divided by \<open>Math.pow(10, decimals)\<close>; the
  power is taken as the double nearest to the power of ten, which it is exactly up to 22
  decimals.
\<close>

definition getTokenBalance ::
    "chain \<Rightarrow> address \<Rightarrow> address \<Rightarrow> effect list \<times> (tx_error + tokenBalance)" where
  "getTokenBalance ch walletAddress mintAddress =
     (case toPublicKey ch walletAddress of
        Inl e \<Rightarrow> ([], Inl e)
      | Inr walletPublicKey \<Rightarrow>
     (case toPublicKey ch mintAddress of
        Inl e \<Rightarrow> ([], Inl e)
      | Inr mintPublicKey \<Rightarrow>
     (case getAssociatedTokenAddress ch mintPublicKey walletPublicKey of
        Inl e \<Rightarrow> ([ConsoleError e], Inl e)
      | Inr tokenAccountAddress \<Rightarrow>
     (case getMint ch mintPublicKey of
        Inl e \<Rightarrow> ([ConsoleError e], Inl e)
      | Inr mint \<Rightarrow>
     (case getTokenAccountBalance ch tokenAccountAddress of
        Inr amount \<Rightarrow>
          ([], Inr \<lparr>balance = js_div (roundDouble (of_nat amount))
                                     (roundDouble (10 ^ decimals mint)),
                    tokenAccount = tokenAccountAddress\<rparr>)
      | Inl err \<Rightarrow>
          ([], Inr \<lparr>balance = Num 0, tokenAccount = tokenAccountAddress\<rparr>))))))"

subsection \<open>transferSOL (4-transfer)\<close>

definition LAMPORTS_PER_SOL :: jsnum where
  "LAMPORTS_PER_SOL = Num 1000000000"

text \<open>
  The whole body is inside one \<open>try\<close>; its \<open>catch\<close> prints the error and throws it
  again. The amount is a JavaScript number, and the amount in lamports, the sum with the
  fee and the comparison with the balance are computed on doubles. The result is the list
  of effects in order, and the signature or the error thrown. The transaction counts as
  constructed once the transfer instruction has been added to it, and as simulated or
  submitted from the moment the call is made, whether or not the call then fails.
\<close>

definition transferSOL ::
    "chain \<Rightarrow> string \<Rightarrow> string \<Rightarrow> jsnum \<Rightarrow> effect list \<times> (tx_error + string)" where
  "transferSOL ch secretKeyText recipientAddress amount =
     (case keypairFromSecret ch secretKeyText of
        Inl e \<Rightarrow> ([ConsoleError e], Inl e)
      | Inr senderKeypair \<Rightarrow>
     (case newPublicKey ch recipientAddress of
        Inl e \<Rightarrow> ([ConsoleError e], Inl e)
      | Inr recipientPublicKey \<Rightarrow>
     if \<not> isOnCurve ch recipientPublicKey
     then ([ConsoleError InvalidRecipient], Inl InvalidRecipient)
     else
     (case getBalance ch (publicKey senderKeypair) of
        Inl e \<Rightarrow> ([ConsoleError e], Inl e)
      | Inr senderBalance \<Rightarrow>
     let amountInLamports = js_mul amount LAMPORTS_PER_SOL in
     if js_lt (Num (of_int senderBalance)) (js_add amountInLamports (Num 5000))
     then ([ConsoleError (InsufficientBalance senderBalance amount)],
           Inl (InsufficientBalance senderBalance amount))
     else
     let started = [LogTransferStart amount (publicKey senderKeypair) recipientAddress] in
     (case systemTransfer ch (publicKey senderKeypair) recipientPublicKey amountInLamports of
        Inl e \<Rightarrow> (started @ [ConsoleError e], Inl e)
      | Inr transfer \<Rightarrow>
     let tx0 = \<lparr>instructions = [transfer], feePayer = None, recentBlockhash = None\<rparr>;
         tx1 = tx0\<lparr>feePayer := Some (publicKey senderKeypair)\<rparr>;
         built = started @ [Constructed tx0]
     in
     (case getLatestBlockhash ch of
        Inl e \<Rightarrow> (built @ [ConsoleError e], Inl e)
      | Inr blockhash \<Rightarrow>
     let tx = tx1\<lparr>recentBlockhash := Some blockhash\<rparr> in
     (case simulateTransaction ch tx of
        Inl e \<Rightarrow> (built @ [Simulated tx, ConsoleError e], Inl e)
      | Inr simulated \<Rightarrow>
     (case sendAndConfirmTransaction ch tx of
        Inl e \<Rightarrow>
          (built @ [Simulated tx, LogSimulation simulated, Submitted tx, ConsoleError e], Inl e)
      | Inr signature \<Rightarrow>
          (built @ [Simulated tx, LogSimulation simulated, Submitted tx,
                    LogSuccess signature, LogSolscanLink signature],
           Inr signature))))))))"

text \<open>An effect that builds, simulates or submits a transaction.\<close>

fun touchesTransaction :: "effect \<Rightarrow> bool" where
  "touchesTransaction (Constructed t) = True"
| "touchesTransaction (Simulated t) = True"
| "touchesTransaction (Submitted t) = True"
| "touchesTransaction x = False"

section \<open>What the properties speak about\<close>

text \<open>
  The request as the specification words it, without reference to how the worker
  compares. Two characters are the same letter when they are equal or are the capital
  and the small form of one of the 26 letters; two strings are the same ignoring case
  when they are so character by character. An address begins with a pattern when it
  splits into a head and a rest with the head equal to the pattern, exactly or ignoring
  case, and likewise for its end. The request is case sensitive unless \<open>caseSensitive\<close>
  is given as false.
\<close>

definition letterPairs :: "(char \<times> char) list" where
  "letterPairs = zip ''ABCDEFGHIJKLMNOPQRSTUVWXYZ'' ''abcdefghijklmnopqrstuvwxyz''"

definition sameLetter :: "char \<Rightarrow> char \<Rightarrow> bool" where
  "sameLetter c d = (c = d \<or> (c, d) \<in> set letterPairs \<or> (d, c) \<in> set letterPairs)"

definition sameIgnoringCase :: "string \<Rightarrow> string \<Rightarrow> bool" where
  "sameIgnoringCase a b = list_all2 sameLetter a b"

definition beginsWith :: "bool \<Rightarrow> string \<Rightarrow> string \<Rightarrow> bool" where
  "beginsWith exact a p =
     (\<exists>h rest. a = h @ rest \<and> (if exact then h = p else sameIgnoringCase h p))"

definition finishesWith :: "bool \<Rightarrow> string \<Rightarrow> string \<Rightarrow> bool" where
  "finishesWith exact a s =
     (\<exists>front t. a = front @ t \<and> (if exact then t = s else sameIgnoringCase t s))"

definition satisfiesRequest :: "options \<Rightarrow> string \<Rightarrow> bool" where
  "satisfiesRequest opts a =
     ((\<forall>p. prefix opts = Some p \<longrightarrow> beginsWith (caseSensitive opts \<noteq> Some False) a p) \<and>
      (\<forall>s. suffix opts = Some s \<longrightarrow> finishesWith (caseSensitive opts \<noteq> Some False) a s))"

text \<open>
  The comparison as the worker makes it, for the proofs: both sides as they are, or both
  folded to lower case.
\<close>

definition caseFold :: "bool \<Rightarrow> string \<Rightarrow> string" where
  "caseFold cs s = (if cs then s else toLowerCase s)"

text \<open>
  An event is genuine when a message it carries was posted by the worker script of the
  worker it comes from, run on some sequence of generated keys. Nothing is asked of the
  order or the time of arrival, and a message may still arrive from a worker that has
  been told to terminate.
\<close>

definition genuine :: "(bytes \<Rightarrow> string) \<Rightarrow> coord \<Rightarrow> event \<Rightarrow> bool" where
  "genuine addr c ev =
     (case ev of
        Message i m \<Rightarrow>
          i < length (workers c) \<longrightarrow> (\<exists>keys. m \<in> set (workerScript addr (data (workers c ! i)) keys))
      | _ \<Rightarrow> True)"

text \<open>
  The two ways a worker can fail, and the events that neither report a match nor fire
  the timeout.
\<close>

fun isWorkerFailure :: "event \<Rightarrow> bool" where
  "isWorkerFailure (WorkerError i) = True"
| "isWorkerFailure (WorkerExit i code) = True"
| "isWorkerFailure ev = False"

definition quietEvent :: "event \<Rightarrow> bool" where
  "quietEvent ev =
     (case ev of
        Message i (FoundMsg pk sk k) \<Rightarrow> False
      | TimeoutFires \<Rightarrow> False
      | _ \<Rightarrow> True)"

subsection \<open>Example inputs\<close>

text \<open>
  A machine with four execution units, an SDK whose key \<open>[3]\<close> has the address
  \<open>SoLong\<close> while every other key has the address \<open>solong\<close>, a request for the
  prefix \<open>So\<close> with one worker, and the state in which the search for it starts; the
  same for a request that ignores case and asks for the prefix \<open>So\<close> and the suffix
  \<open>NG\<close>.
\<close>

definition exEnv :: env where
  "exEnv = \<lparr>isMainThread = True, cpus = 4, now = 0\<rparr>"

definition exAddr :: "bytes \<Rightarrow> string" where
  "exAddr sk = (if sk = [3] then ''SoLong'' else ''solong'')"

definition exOptions :: options where
  "exOptions = \<lparr>prefix = Some ''So'', suffix = None, caseSensitive = Some True,
                threadsCount = Some 1, timeout = Some 1000\<rparr>"

definition exData :: workerData where
  "exData = \<lparr>wd_prefix = Some ''So'', wd_suffix = None, wd_caseSensitive = True, wd_threadId = 0\<rparr>"

definition exStart :: coord where
  "exStart =
     \<lparr>workers = [\<lparr>data = exData, terminated = False\<rparr>],
      walletFound = False, totalAttempts = 0, startTime = 0, timeoutMs = 1000,
      timerPending = True, intervalActive = True, outcome = Pending,
      console = [LogStart 1 True, LogPrefix ''So'']\<rparr>"

definition exOptionsAnyCase :: options where
  "exOptionsAnyCase = \<lparr>prefix = Some ''So'', suffix = Some ''NG'', caseSensitive = Some False,
                threadsCount = Some 1, timeout = Some 1000\<rparr>"

definition exDataAnyCase :: workerData where
  "exDataAnyCase = \<lparr>wd_prefix = Some ''So'', wd_suffix = Some ''NG'', wd_caseSensitive = False,
                     wd_threadId = 0\<rparr>"

definition exStartAnyCase :: coord where
  "exStartAnyCase =
     \<lparr>workers = [\<lparr>data = exDataAnyCase, terminated = False\<rparr>],
      walletFound = False, totalAttempts = 0, startTime = 0, timeoutMs = 1000,
      timerPending = True, intervalActive = True, outcome = Pending,
      console = [LogStart 1 False, LogPrefix ''So'', LogSuffix ''NG'']\<rparr>"

definition zeroTimeoutOptions :: options where
  "zeroTimeoutOptions = \<lparr>prefix = Some ''So'', suffix = None, caseSensitive = Some True,
                threadsCount = Some 1, timeout = Some 0\<rparr>"

definition defaultOptions :: options where
  "defaultOptions = \<lparr>prefix = Some ''So'', suffix = None, caseSensitive = None,
                threadsCount = None, timeout = None\<rparr>"

text \<open>
  A chain with one mint of six decimals, one holder of 2.5 tokens, and a sender whose
  wallet holds 1000004999 lamports.
\<close>

definition exTransfer :: "PublicKey \<Rightarrow> PublicKey \<Rightarrow> jsnum \<Rightarrow> tx_error + instruction" where
  "exTransfer sender recipient n =
     (case n of
        Num q \<Rightarrow>
          if q = of_int \<lfloor>q\<rfloor> \<and> 0 \<le> q \<and> q < 2 ^ 64
          then Inr \<lparr>fromPubkey = sender, toPubkey = recipient, lamports = \<lfloor>q\<rfloor>\<rparr>
          else Inl (SdkFailure ''RangeError'')
      | _ \<Rightarrow> Inl (SdkFailure ''RangeError''))"

definition exChain :: chain where
  "exChain =
     \<lparr>newPublicKey = (\<lambda>s. if s = [] then Inl (SdkFailure ''Invalid public key input'') else Inr s),
      isOnCurve = (\<lambda>k. k \<noteq> ''offcurve''),
      keypairFromSecret = (\<lambda>s. if s = [] then Inl (SdkFailure ''bad secret key size'')
                               else Inr \<lparr>publicKey = ''sender'', secretKey = [7]\<rparr>),
      getAssociatedTokenAddress = (\<lambda>m w. Inr (m @ ''/'' @ w)),
      getMint = (\<lambda>m. if m = ''mint'' then Inr \<lparr>decimals = 6\<rparr> else Inl (SdkFailure ''TokenAccountNotFoundError'')),
      getTokenAccountBalance = (\<lambda>a. if a = ''mint/holder'' then Inr 2500000
                                    else Inl (SdkFailure ''could not find account'')),
      getBalance = (\<lambda>k. Inr 1000004999),
      systemTransfer = exTransfer,
      getLatestBlockhash = Inr ''hash'',
      simulateTransaction = (\<lambda>t. Inr ''ok''),
      sendAndConfirmTransaction = (\<lambda>t. Inr ''sig'')\<rparr>"

text \<open>The same chain with other balances in the sender's wallet.\<close>

definition exChainWith :: "int \<Rightarrow> chain" where
  "exChainWith b = exChain\<lparr>getBalance := (\<lambda>k. Inr b)\<rparr>"

section \<open>Theorems about the vanity search\<close>

subsection \<open>Strings and the worker\<close>

lemma startsWith_iff: "startsWith s p \<longleftrightarrow> (\<exists>rest. s = p @ rest)"
  unfolding startsWith_def
  by (metis append_eq_conv_conj append_take_drop_id)

lemma endsWith_iff: "endsWith s p \<longleftrightarrow> (\<exists>front. s = front @ p)"
proof
  assume "endsWith s p"
  then have "drop (length s - length p) s = p" by (simp add: endsWith_def)
  then have "s = take (length s - length p) s @ p" by (metis append_take_drop_id)
  then show "\<exists>front. s = front @ p" ..
next
  assume "\<exists>front. s = front @ p"
  then obtain front where "s = front @ p" ..
  then show "endsWith s p" by (simp add: endsWith_def)
qed

lemma toLowerCase_Nil_iff: "toLowerCase s = [] \<longleftrightarrow> s = []"
  by (simp add: toLowerCase_def)

lemma toLowerCase_Nil: "toLowerCase [] = []"
  by (simp add: toLowerCase_def)

lemma lower_table: "\<forall>c. toLowerChar c = c \<or> (c, toLowerChar c) \<in> set letterPairs"
  by code_simp

lemma table_lower: "list_all (\<lambda>(u, l). toLowerChar u = l \<and> toLowerChar l = l) letterPairs"
  by code_simp

lemma table_distinct: "distinct (map snd letterPairs)"
  by code_simp

lemma pair_lower:
  assumes "(u, l) \<in> set letterPairs"
  shows "toLowerChar u = l" and "toLowerChar l = l"
  using table_lower assms by (auto simp: list_all_iff)

lemma pair_inj:
  assumes "(c, l) \<in> set letterPairs" and "(d, l) \<in> set letterPairs"
  shows "c = d"
proof -
  from table_distinct have "inj_on snd (set letterPairs)" by (simp add: distinct_map)
  with assms show ?thesis by (fastforce simp: inj_on_def)
qed

lemma toLowerChar_eq_iff: "toLowerChar c = toLowerChar d \<longleftrightarrow> sameLetter c d"
proof
  assume eq: "toLowerChar c = toLowerChar d"
  from lower_table have C: "toLowerChar c = c \<or> (c, toLowerChar c) \<in> set letterPairs"
    and D: "toLowerChar d = d \<or> (d, toLowerChar d) \<in> set letterPairs" by blast+
  from C D eq show "sameLetter c d"
    unfolding sameLetter_def using pair_inj by metis
next
  assume "sameLetter c d"
  then show "toLowerChar c = toLowerChar d"
    unfolding sameLetter_def using pair_lower by metis
qed

lemma toLowerCase_eq_iff: "toLowerCase a = toLowerCase b \<longleftrightarrow> sameIgnoringCase a b"
proof (induction a arbitrary: b)
  case Nil
  then show ?case by (simp add: toLowerCase_def sameIgnoringCase_def)
next
  case (Cons x a)
  then show ?case
    by (cases b) (simp_all add: toLowerCase_def sameIgnoringCase_def toLowerChar_eq_iff)
qed

lemma length_toLowerCase: "length (toLowerCase s) = length s"
  by (simp add: toLowerCase_def)

lemma toLowerCase_append: "toLowerCase (a @ b) = toLowerCase a @ toLowerCase b"
  by (simp add: toLowerCase_def)

lemma lower_prefix_iff:
  "(\<exists>rest. toLowerCase a = toLowerCase p @ rest) \<longleftrightarrow>
   (\<exists>h rest. a = h @ rest \<and> sameIgnoringCase h p)"
proof
  assume "\<exists>rest. toLowerCase a = toLowerCase p @ rest"
  then obtain rest where r: "toLowerCase a = toLowerCase p @ rest" ..
  then have "take (length p) (toLowerCase a) = toLowerCase p"
    by (simp add: length_toLowerCase)
  then have "toLowerCase (take (length p) a) = toLowerCase p"
    by (simp add: toLowerCase_def take_map)
  then have "sameIgnoringCase (take (length p) a) p" by (simp only: toLowerCase_eq_iff)
  moreover have "a = take (length p) a @ drop (length p) a" by simp
  ultimately show "\<exists>h rest. a = h @ rest \<and> sameIgnoringCase h p" by blast
next
  assume "\<exists>h rest. a = h @ rest \<and> sameIgnoringCase h p"
  then obtain h rest where "a = h @ rest" and "sameIgnoringCase h p" by blast
  then have "toLowerCase a = toLowerCase p @ toLowerCase rest"
    by (simp add: toLowerCase_append flip: toLowerCase_eq_iff)
  then show "\<exists>rest. toLowerCase a = toLowerCase p @ rest" ..
qed

lemma lower_suffix_iff:
  "(\<exists>front. toLowerCase a = front @ toLowerCase s) \<longleftrightarrow>
   (\<exists>front t. a = front @ t \<and> sameIgnoringCase t s)"
proof
  assume "\<exists>front. toLowerCase a = front @ toLowerCase s"
  then obtain front where r: "toLowerCase a = front @ toLowerCase s" ..
  then have "length a = length front + length s"
    by (metis length_append length_toLowerCase)
  with r have "drop (length a - length s) (toLowerCase a) = toLowerCase s" by simp
  then have "toLowerCase (drop (length a - length s) a) = toLowerCase s"
    by (simp add: toLowerCase_def drop_map)
  then have "sameIgnoringCase (drop (length a - length s) a) s" by (simp only: toLowerCase_eq_iff)
  moreover have "a = take (length a - length s) a @ drop (length a - length s) a" by simp
  ultimately show "\<exists>front t. a = front @ t \<and> sameIgnoringCase t s" by blast
next
  assume "\<exists>front t. a = front @ t \<and> sameIgnoringCase t s"
  then obtain front t where "a = front @ t" and "sameIgnoringCase t s" by blast
  then have "toLowerCase a = toLowerCase front @ toLowerCase s"
    by (simp add: toLowerCase_append flip: toLowerCase_eq_iff)
  then show "\<exists>front. toLowerCase a = front @ toLowerCase s" ..
qed

lemma beginsWith_caseFold:
  "beginsWith cs a p \<longleftrightarrow> (\<exists>rest. caseFold cs a = caseFold cs p @ rest)"
proof (cases cs)
  case True
  then show ?thesis by (auto simp: beginsWith_def caseFold_def)
next
  case False
  then show ?thesis by (simp add: beginsWith_def caseFold_def lower_prefix_iff)
qed

lemma finishesWith_caseFold:
  "finishesWith cs a s \<longleftrightarrow> (\<exists>front. caseFold cs a = front @ caseFold cs s)"
proof (cases cs)
  case True
  then show ?thesis by (auto simp: finishesWith_def caseFold_def)
next
  case False
  then show ?thesis by (simp add: finishesWith_def caseFold_def lower_suffix_iff)
qed

lemma effCaseSensitive_iff: "effCaseSensitive opts \<longleftrightarrow> caseSensitive opts \<noteq> Some False"
  by (cases "caseSensitive opts") (auto simp: effCaseSensitive_def)

lemma checkAddress_iff:
  "checkAddress wd a \<longleftrightarrow>
     (\<forall>p. wd_prefix wd = Some p \<longrightarrow> (\<exists>rest. caseFold (wd_caseSensitive wd) a = caseFold (wd_caseSensitive wd) p @ rest)) \<and>
     (\<forall>s. wd_suffix wd = Some s \<longrightarrow> (\<exists>front. caseFold (wd_caseSensitive wd) a = front @ caseFold (wd_caseSensitive wd) s))"
proof -
  have P: "(searchPrefix wd \<noteq> [] \<and> \<not> startsWith (caseFold (wd_caseSensitive wd) a) (searchPrefix wd))
        \<longleftrightarrow> \<not> (\<forall>p. wd_prefix wd = Some p \<longrightarrow> (\<exists>rest. caseFold (wd_caseSensitive wd) a = caseFold (wd_caseSensitive wd) p @ rest))"
    by (cases "wd_prefix wd")
       (auto simp: searchPrefix_def caseFold_def startsWith_iff toLowerCase_Nil_iff toLowerCase_Nil)
  have S: "(searchSuffix wd \<noteq> [] \<and> \<not> endsWith (caseFold (wd_caseSensitive wd) a) (searchSuffix wd))
        \<longleftrightarrow> \<not> (\<forall>s. wd_suffix wd = Some s \<longrightarrow> (\<exists>front. caseFold (wd_caseSensitive wd) a = front @ caseFold (wd_caseSensitive wd) s))"
    by (cases "wd_suffix wd")
       (auto simp: searchSuffix_def caseFold_def endsWith_iff toLowerCase_Nil_iff toLowerCase_Nil)
  have "checkAddress wd a \<longleftrightarrow>
      \<not> (searchPrefix wd \<noteq> [] \<and> \<not> startsWith (caseFold (wd_caseSensitive wd) a) (searchPrefix wd)) \<and>
      \<not> (searchSuffix wd \<noteq> [] \<and> \<not> endsWith (caseFold (wd_caseSensitive wd) a) (searchSuffix wd))"
    by (simp add: checkAddress_def caseFold_def Let_def)
  then show ?thesis unfolding P S by blast
qed

lemma workerLoop_found:
  "FoundMsg pk sk k \<in> set (workerLoop addr wd n keys) \<Longrightarrow> pk = addr sk \<and> checkAddress wd pk"
  by (induction keys arbitrary: n)
     (auto simp: Let_def fromSecretKey_def split: if_splits)

lemma workerLoop_progress:
  "ProgressMsg k \<in> set (workerLoop addr wd n keys) \<Longrightarrow> k = progressInterval"
  by (induction keys arbitrary: n) (auto simp: Let_def split: if_splits)

lemma workerLoop_quiet:
  assumes "\<not> checkAddress wd (addr sk)" and "0 \<le> n" and "n + int k < progressInterval"
  shows "workerLoop addr wd n (replicate k sk @ rest) = workerLoop addr wd (n + int k) rest"
  using assms(2,3)
proof (induction k arbitrary: n)
  case 0
  then show ?case by simp
next
  case (Suc k)
  from Suc.prems have "(n + 1) mod progressInterval \<noteq> 0"
    by (simp add: progressInterval_def)
  moreover from Suc.prems have "workerLoop addr wd (n + 1) (replicate k sk @ rest)
      = workerLoop addr wd (n + 1 + int k) rest"
    by (intro Suc.IH) simp_all
  ultimately show ?case using assms(1)
    by (simp add: Let_def fromSecretKey_def add.assoc)
qed

subsection \<open>The coordinator\<close>

lemma resolve_Resolved: "resolve v p = Resolved kp \<Longrightarrow> p = Resolved kp \<or> (p = Pending \<and> kp = v)"
  by (cases p) auto

lemma reject_Resolved: "reject e p = Resolved kp \<Longrightarrow> p = Resolved kp"
  by (cases p) auto

lemma data_terminateAll: "map data (terminateAll ws) = map data ws"
  by (simp add: terminateAll_def)

lemma data_terminateOne: "map data (terminateOne i ws) = map data ws"
proof (cases "i < length ws")
  case True
  then have "(map data ws)[i := data (ws ! i)] = map data ws"
    by (metis list_update_id nth_map)
  with True show ?thesis by (simp add: terminateOne_def map_update)
next
  case False
  then show ?thesis by (simp add: terminateOne_def)
qed

lemma step_data: "map data (workers (step addr ev c)) = map data (workers c)"
proof (cases ev)
  case (Message i m)
  then show ?thesis by (cases m) (simp_all add: data_terminateAll)
next
  case (WorkerError i)
  then show ?thesis by (simp add: onError_def Let_def data_terminateOne)
next
  case (WorkerExit i code)
  then show ?thesis by (simp add: onExit_def)
next
  case TimeoutFires
  then show ?thesis by (simp add: onTimeout_def data_terminateAll)
next
  case (IntervalFires t)
  then show ?thesis by (simp add: updateProgress_def)
qed

lemma step_length: "length (workers (step addr ev c)) = length (workers c)"
  using step_data [of addr ev c] by (metis length_map)

lemma step_resolved:
  assumes "outcome (step addr ev c) = Resolved kp"
  shows "outcome c = Resolved kp \<or>
         (\<exists>i pk sk k. ev = Message i (FoundMsg pk sk k) \<and> i < length (workers c) \<and>
                      kp = fromSecretKey addr sk)"
proof (cases ev)
  case (Message i m)
  with assms show ?thesis
    by (cases m) (auto split: if_splits dest: resolve_Resolved)
next
  case (WorkerError i)
  with assms show ?thesis by (simp add: onError_def Let_def split: if_splits)
next
  case (WorkerExit i code)
  with assms show ?thesis by (simp add: onExit_def split: if_splits)
next
  case TimeoutFires
  with assms show ?thesis by (auto simp: onTimeout_def split: if_splits dest: reject_Resolved)
next
  case (IntervalFires t)
  with assms show ?thesis by (simp add: updateProgress_def split: if_splits)
qed

lemma run_resolved:
  assumes "outcome (run addr evs c) = Resolved kp"
  shows "outcome c = Resolved kp \<or>
         (\<exists>i pk sk k. Message i (FoundMsg pk sk k) \<in> set evs \<and> i < length (workers c) \<and>
                      kp = fromSecretKey addr sk)"
  using assms
proof (induction evs arbitrary: c)
  case Nil
  then show ?case by simp
next
  case (Cons ev evs)
  from Cons.prems have "outcome (run addr evs (step addr ev c)) = Resolved kp" by simp
  from Cons.IH [OF this] show ?case
  proof
    assume "outcome (step addr ev c) = Resolved kp"
    from step_resolved [OF this] show ?thesis by auto
  next
    assume "\<exists>i pk sk k. Message i (FoundMsg pk sk k) \<in> set evs \<and>
              i < length (workers (step addr ev c)) \<and> kp = fromSecretKey addr sk"
    then show ?thesis by (auto simp: step_length)
  qed
qed

lemma run_append: "run addr (xs @ ys) c = run addr ys (run addr xs c)"
  by (induction xs arbitrary: c) simp_all

lemma init_workers:
  assumes "generateVanityWallet e opts = Inr c0" and "w \<in> set (workers c0)"
  shows "wd_prefix (data w) = prefix opts \<and> wd_suffix (data w) = suffix opts \<and>
         wd_caseSensitive (data w) = effCaseSensitive opts"
  using assms
  by (auto simp: generateVanityWallet_def Let_def spawn_def split: if_splits)

lemma init_outcome:
  assumes "generateVanityWallet e opts = Inr c0"
  shows "outcome c0 = Pending \<and> \<not> walletFound c0 \<and> totalAttempts c0 = 0"
  using assms
  by (auto simp: generateVanityWallet_def Let_def split: if_splits)

lemma satisfiesRequest_caseFold:
  "satisfiesRequest opts a \<longleftrightarrow>
     (\<forall>p. prefix opts = Some p \<longrightarrow>
        (\<exists>rest. caseFold (effCaseSensitive opts) a = caseFold (effCaseSensitive opts) p @ rest)) \<and>
     (\<forall>s. suffix opts = Some s \<longrightarrow>
        (\<exists>front. caseFold (effCaseSensitive opts) a = front @ caseFold (effCaseSensitive opts) s))"
  by (simp add: satisfiesRequest_def beginsWith_caseFold finishesWith_caseFold
      effCaseSensitive_iff)

lemma satisfiesRequest_casing:
  assumes "caseSensitive opts = Some False" and "sameIgnoringCase a' a"
  shows "satisfiesRequest opts a' = satisfiesRequest opts a"
proof -
  from assms(1) have "\<not> effCaseSensitive opts" by (simp add: effCaseSensitive_iff)
  moreover from assms(2) have "toLowerCase a' = toLowerCase a" by (simp only: toLowerCase_eq_iff)
  ultimately show ?thesis by (simp add: satisfiesRequest_caseFold caseFold_def)
qed

lemma checkAddress_satisfies:
  assumes "generateVanityWallet e opts = Inr c0" and "w \<in> set (workers c0)"
  shows "checkAddress (data w) a \<longleftrightarrow> satisfiesRequest opts a"
  using init_workers [OF assms]
  by (simp add: checkAddress_iff satisfiesRequest_caseFold)

subsection \<open>The example search\<close>

lemma exStart_init: "generateVanityWallet exEnv exOptions = Inr exStart"
  by (simp add: generateVanityWallet_def exEnv_def exOptions_def exStart_def exData_def
      effThreadsCount_def effTimeout_def effCaseSensitive_def spawn_def)

lemma ex_check_hit: "checkAddress exData ''SoLong''"
  by (simp add: checkAddress_def exData_def searchPrefix_def searchSuffix_def startsWith_def)

lemma ex_check_miss: "\<not> checkAddress exData ''solong''"
  by (simp add: checkAddress_def exData_def searchPrefix_def searchSuffix_def startsWith_def)

lemma exStartAnyCase_init: "generateVanityWallet exEnv exOptionsAnyCase = Inr exStartAnyCase"
  by (simp add: generateVanityWallet_def exEnv_def exOptionsAnyCase_def exStartAnyCase_def
      exDataAnyCase_def effThreadsCount_def effTimeout_def effCaseSensitive_def spawn_def)

lemma ex_check_any_casing:
  "checkAddress exDataAnyCase ''solong''" "checkAddress exDataAnyCase ''SOLONG''"
  "\<not> checkAddress exDataAnyCase ''solo''" "\<not> checkAddress exDataAnyCase ''olong''"
  by code_simp+

lemma ex_script_any_case: "workerScript exAddr exDataAnyCase [[2]] = [FoundMsg ''solong'' [2] 1]"
  by (simp add: workerScript_def fromSecretKey_def exAddr_def ex_check_any_casing)

lemma ex_script: "workerScript exAddr exData [[2], [3]] = [FoundMsg ''SoLong'' [3] 2]"
  by (simp add: workerScript_def fromSecretKey_def exAddr_def ex_check_hit ex_check_miss
      progressInterval_def)

lemma ex_thousand_and_one:
  "workerScript exAddr exData (replicate 999 [2] @ [[2], [3]])
     = [ProgressMsg 1000, FoundMsg ''SoLong'' [3] 1001]"
proof -
  have miss: "\<not> checkAddress exData (exAddr [2])" and hit: "checkAddress exData (exAddr [3])"
    by (simp_all add: exAddr_def ex_check_miss ex_check_hit)
  have "workerLoop exAddr exData 0 (replicate 999 [2] @ [[2], [3]])
      = workerLoop exAddr exData (0 + int 999) [[2], [3]]"
    using miss by (intro workerLoop_quiet) (simp_all add: progressInterval_def)
  also have "\<dots> = [ProgressMsg 1000, FoundMsg ''SoLong'' [3] 1001]"
    using miss hit by (simp add: Let_def fromSecretKey_def progressInterval_def exAddr_def)
  finally show ?thesis by (simp add: workerScript_def)
qed

subsection \<open>C1: a found key pair satisfies the request\<close>

text \<open>
  C1. Whenever a search started by \<open>generateVanityWallet\<close> resolves, on any sequence
  of events whose messages come from the worker script, the key pair it resolves with has
  the address of its secret key, and that address satisfies the request: it begins with the
  prefix and ends with the suffix, whichever is given, exactly unless \<open>caseSensitive\<close>
  was given as false, and ignoring the case of letters when it was. The check of every
  worker accepts exactly the addresses that satisfy the request; so when \<open>caseSensitive\<close>
  is false, every letter-casing of an address gets the same answer.
\<close>

theorem found_address_satisfies_request:
  assumes init: "generateVanityWallet e opts = Inr c0"
    and gen: "\<forall>ev \<in> set evs. genuine addr c0 ev"
    and res: "outcome (run addr evs c0) = Resolved kp"
  shows "publicKey kp = addr (secretKey kp) \<and> satisfiesRequest opts (publicKey kp) \<and>
         (\<forall>w \<in> set (workers c0). \<forall>a. checkAddress (data w) a \<longleftrightarrow> satisfiesRequest opts a) \<and>
         (caseSensitive opts = Some False \<longrightarrow>
            (\<forall>w \<in> set (workers c0). \<forall>a a'. sameIgnoringCase a' a \<longrightarrow>
               checkAddress (data w) a' = checkAddress (data w) a))"
proof -
  from init_outcome [OF init] have "outcome c0 \<noteq> Resolved kp" by simp
  with run_resolved [OF res] obtain i pk sk k
    where ev: "Message i (FoundMsg pk sk k) \<in> set evs" and i: "i < length (workers c0)"
      and kp: "kp = fromSecretKey addr sk"
    by blast
  from gen ev i obtain keys
    where "FoundMsg pk sk k \<in> set (workerScript addr (data (workers c0 ! i)) keys)"
    by (fastforce simp: genuine_def)
  then have "pk = addr sk \<and> checkAddress (data (workers c0 ! i)) pk"
    unfolding workerScript_def by (rule workerLoop_found)
  moreover from i have "workers c0 ! i \<in> set (workers c0)" by simp
  ultimately have "satisfiesRequest opts (addr sk)"
    using checkAddress_satisfies [OF init] by blast
  with kp have "publicKey kp = addr (secretKey kp) \<and> satisfiesRequest opts (publicKey kp)"
    by (simp add: fromSecretKey_def)
  moreover have "\<forall>w \<in> set (workers c0). \<forall>a. checkAddress (data w) a \<longleftrightarrow> satisfiesRequest opts a"
    using checkAddress_satisfies [OF init] by blast
  moreover have "caseSensitive opts = Some False \<longrightarrow>
      (\<forall>w \<in> set (workers c0). \<forall>a a'. sameIgnoringCase a' a \<longrightarrow>
         checkAddress (data w) a' = checkAddress (data w) a)"
    using checkAddress_satisfies [OF init] satisfiesRequest_casing [of opts] by blast
  ultimately show ?thesis by blast
qed

text \<open>
  The theorem at the two example searches. For the prefix \<open>So\<close> taken exactly, the
  address \<open>SoLong\<close> is found and \<open>solong\<close> does not satisfy the request. For the prefix
  \<open>So\<close> and the suffix \<open>NG\<close> ignoring case, the address \<open>solong\<close> is found,
  \<open>SOLONG\<close> satisfies the request as well, and \<open>solo\<close> and \<open>olong\<close> do not.
\<close>

theorem found_address_satisfies_request_witness:
  "generateVanityWallet exEnv exOptions = Inr exStart \<and>
   genuine exAddr exStart (Message 0 (FoundMsg ''SoLong'' [3] 2)) \<and>
   outcome (run exAddr [Message 0 (FoundMsg ''SoLong'' [3] 2)] exStart)
     = Resolved \<lparr>publicKey = ''SoLong'', secretKey = [3]\<rparr> \<and>
   satisfiesRequest exOptions ''SoLong'' \<and>
   \<not> satisfiesRequest exOptions ''solong'' \<and>
   generateVanityWallet exEnv exOptionsAnyCase = Inr exStartAnyCase \<and>
   genuine exAddr exStartAnyCase (Message 0 (FoundMsg ''solong'' [2] 1)) \<and>
   outcome (run exAddr [Message 0 (FoundMsg ''solong'' [2] 1)] exStartAnyCase)
     = Resolved \<lparr>publicKey = ''solong'', secretKey = [2]\<rparr> \<and>
   satisfiesRequest exOptionsAnyCase ''solong'' \<and>
   satisfiesRequest exOptionsAnyCase ''SOLONG'' \<and>
   \<not> satisfiesRequest exOptionsAnyCase ''solo'' \<and>
   \<not> satisfiesRequest exOptionsAnyCase ''olong''"
proof -
  have "FoundMsg ''SoLong'' [3] 2 \<in> set (workerScript exAddr exData [[2], [3]])"
    by (simp add: ex_script)
  then have "\<exists>keys. FoundMsg ''SoLong'' [3] 2 \<in> set (workerScript exAddr exData keys)" ..
  then have g: "genuine exAddr exStart (Message 0 (FoundMsg ''SoLong'' [3] 2))"
    by (simp add: genuine_def exStart_def)
  then have gs: "\<forall>ev \<in> set [Message 0 (FoundMsg ''SoLong'' [3] 2)]. genuine exAddr exStart ev"
    by simp
  have r: "outcome (run exAddr [Message 0 (FoundMsg ''SoLong'' [3] 2)] exStart)
      = Resolved \<lparr>publicKey = ''SoLong'', secretKey = [3]\<rparr>"
    by (simp add: exStart_def fromSecretKey_def exAddr_def)
  have w: "\<lparr>data = exData, terminated = False\<rparr> \<in> set (workers exStart)"
    by (simp add: exStart_def)
  from found_address_satisfies_request [OF exStart_init gs r] w
  have s1: "satisfiesRequest exOptions ''SoLong''"
    and "checkAddress exData ''solong'' \<longleftrightarrow> satisfiesRequest exOptions ''solong''"
    by auto
  with ex_check_miss have s2: "\<not> satisfiesRequest exOptions ''solong''" by simp
  have "FoundMsg ''solong'' [2] 1 \<in> set (workerScript exAddr exDataAnyCase [[2]])"
    by (simp add: ex_script_any_case)
  then have "\<exists>keys. FoundMsg ''solong'' [2] 1 \<in> set (workerScript exAddr exDataAnyCase keys)" ..
  then have g': "genuine exAddr exStartAnyCase (Message 0 (FoundMsg ''solong'' [2] 1))"
    by (simp add: genuine_def exStartAnyCase_def)
  then have gs': "\<forall>ev \<in> set [Message 0 (FoundMsg ''solong'' [2] 1)]. genuine exAddr exStartAnyCase ev"
    by simp
  have r': "outcome (run exAddr [Message 0 (FoundMsg ''solong'' [2] 1)] exStartAnyCase)
      = Resolved \<lparr>publicKey = ''solong'', secretKey = [2]\<rparr>"
    by (simp add: exStartAnyCase_def fromSecretKey_def exAddr_def)
  have w': "\<lparr>data = exDataAnyCase, terminated = False\<rparr> \<in> set (workers exStartAnyCase)"
    by (simp add: exStartAnyCase_def)
  from found_address_satisfies_request [OF exStartAnyCase_init gs' r'] w'
  have t1: "satisfiesRequest exOptionsAnyCase ''solong''"
    and t: "\<And>a. checkAddress exDataAnyCase a \<longleftrightarrow> satisfiesRequest exOptionsAnyCase a"
    by auto
  from t ex_check_any_casing have t2: "satisfiesRequest exOptionsAnyCase ''SOLONG''"
    and t3: "\<not> satisfiesRequest exOptionsAnyCase ''solo''"
    and t4: "\<not> satisfiesRequest exOptionsAnyCase ''olong''"
    by blast+
  from exStart_init g r s1 s2 exStartAnyCase_init g' r' t1 t2 t3 t4 show ?thesis
    by (simp only: simp_thms)
qed

subsection \<open>C2: one terminal outcome\<close>

lemma step_settled: "outcome c \<noteq> Pending \<Longrightarrow> outcome (step addr ev c) = outcome c"
proof (cases ev)
  case (Message i m)
  assume "outcome c \<noteq> Pending"
  with Message show ?thesis by (cases m; cases "outcome c") simp_all
next
  case (WorkerError i)
  then show ?thesis by (simp add: onError_def Let_def)
next
  case (WorkerExit i code)
  then show ?thesis by (simp add: onExit_def)
next
  case TimeoutFires
  assume "outcome c \<noteq> Pending"
  with TimeoutFires show ?thesis by (cases "outcome c") (simp_all add: onTimeout_def)
next
  case (IntervalFires t)
  then show ?thesis by (simp add: updateProgress_def)
qed

lemma run_settled: "outcome c \<noteq> Pending \<Longrightarrow> outcome (run addr evs c) = outcome c"
  by (induction evs arbitrary: c) (simp_all add: step_settled)

lemma second_match_discarded:
  "walletFound c \<Longrightarrow> step addr (Message j (FoundMsg pk sk k)) c = c"
  by simp

lemma cleared_timer_silent: "\<not> timerPending c \<Longrightarrow> step addr TimeoutFires c = c"
  by simp

text \<open>
  C2. In a running search (no match yet, promise pending), the first match report
  resolves the promise with its key pair. After it, a second match report from any worker
  leaves the whole state as it is; the timeout timer has been cleared, so its firing
  leaves the whole state as it is, and even the timeout callback itself could not change
  the outcome; and whatever events follow, the outcome stays the first match.
\<close>

theorem first_match_wins:
  assumes running: "\<not> walletFound c" "outcome c = Pending"
    and i: "i < length (workers c)"
  shows "outcome (step addr (Message i (FoundMsg pk sk k)) c) = Resolved (fromSecretKey addr sk) \<and>
         step addr (Message j (FoundMsg pk' sk' k')) (step addr (Message i (FoundMsg pk sk k)) c)
           = step addr (Message i (FoundMsg pk sk k)) c \<and>
         step addr TimeoutFires (step addr (Message i (FoundMsg pk sk k)) c)
           = step addr (Message i (FoundMsg pk sk k)) c \<and>
         outcome (onTimeout (step addr (Message i (FoundMsg pk sk k)) c))
           = Resolved (fromSecretKey addr sk) \<and>
         outcome (run addr evs (step addr (Message i (FoundMsg pk sk k)) c))
           = Resolved (fromSecretKey addr sk)"
proof -
  let ?c' = "step addr (Message i (FoundMsg pk sk k)) c"
  from running i have o: "outcome ?c' = Resolved (fromSecretKey addr sk)" by simp
  from running i have f: "walletFound ?c'" and t: "\<not> timerPending ?c'" by simp_all
  from f have "step addr (Message j (FoundMsg pk' sk' k')) ?c' = ?c'"
    by (rule second_match_discarded)
  moreover from t have "step addr TimeoutFires ?c' = ?c'"
    by (rule cleared_timer_silent)
  moreover from o have "outcome (onTimeout ?c') = Resolved (fromSecretKey addr sk)"
    by (simp add: onTimeout_def)
  moreover from o have "outcome (run addr evs ?c') = Resolved (fromSecretKey addr sk)"
    by (simp add: run_settled)
  ultimately show ?thesis using o by simp
qed

text \<open>
  The theorem at the example search: a first match, then the same report twice more
  and the timeout.
\<close>

theorem first_match_wins_witness:
  "\<not> walletFound exStart \<and> outcome exStart = Pending \<and> (0::nat) < length (workers exStart) \<and>
   outcome (run exAddr [Message 0 (FoundMsg ''SoLong'' [3] 2), Message 0 (FoundMsg ''SoLong'' [3] 7), TimeoutFires]
      (step exAddr (Message 0 (FoundMsg ''SoLong'' [3] 2)) exStart))
     = Resolved (fromSecretKey exAddr [3])"
proof -
  have h: "\<not> walletFound exStart" "outcome exStart = Pending" "0 < length (workers exStart)"
    by (simp_all add: exStart_def)
  from first_match_wins [OF h] h show ?thesis by blast
qed

subsection \<open>C3: the timeout\<close>

lemma effTimeout_cases:
  "effTimeout opts = (case timeout opts of None \<Rightarrow> 60000 | Some t \<Rightarrow> if t = 0 then 60000 else t)"
  by (cases "timeout opts") (simp_all add: effTimeout_def)

lemma timer_armed_iff:
  assumes "generateVanityWallet e opts = Inr c0"
  shows "timerPending c0 = (0 < effTimeout opts) \<and> timeoutMs c0 = effTimeout opts"
  using assms by (auto simp: generateVanityWallet_def Let_def split: if_splits)

lemma quiet_step_keeps:
  assumes "quietEvent ev"
  shows "outcome (step addr ev c) = outcome c \<and> timerPending (step addr ev c) = timerPending c"
proof (cases ev)
  case (Message i m)
  with assms show ?thesis by (cases m) (simp_all add: quietEvent_def)
next
  case (WorkerError i)
  then show ?thesis by (simp add: onError_def Let_def)
next
  case (WorkerExit i code)
  then show ?thesis by (simp add: onExit_def)
next
  case TimeoutFires
  with assms show ?thesis by (simp add: quietEvent_def)
next
  case (IntervalFires t)
  then show ?thesis by (simp add: updateProgress_def)
qed

lemma quiet_run_keeps:
  assumes "\<forall>ev \<in> set evs. quietEvent ev"
  shows "outcome (run addr evs c) = outcome c \<and> timerPending (run addr evs c) = timerPending c"
  using assms
proof (induction evs arbitrary: c)
  case Nil
  then show ?case by simp
next
  case (Cons ev evs)
  then have "quietEvent ev" and "\<forall>ev \<in> set evs. quietEvent ev" by simp_all
  from quiet_step_keeps [OF this(1), of addr c] Cons.IH [OF this(2), of "step addr ev c"]
  show ?case by simp
qed

text \<open>
  A timeout above zero arms the timer, and the search is rejected with the timeout
  error when the timer fires before any match report. A timeout below zero arms no timer.
\<close>

lemma positive_timeout_rejects:
  assumes init: "generateVanityWallet e opts = Inr c0"
    and pos: "0 < effTimeout opts"
    and quiet: "\<forall>ev \<in> set evs. quietEvent ev"
  shows "outcome (run addr (evs @ [TimeoutFires]) c0) = Rejected SearchTimeout"
proof -
  from init_outcome [OF init] timer_armed_iff [OF init] pos
  have "outcome c0 = Pending" and "timerPending c0" by simp_all
  with quiet_run_keeps [OF quiet, of addr c0]
  have "outcome (run addr evs c0) = Pending" and "timerPending (run addr evs c0)" by simp_all
  then show ?thesis by (simp add: run_append onTimeout_def)
qed

lemma nonpositive_timeout_never_fires:
  assumes init: "generateVanityWallet e opts = Inr c0" and "effTimeout opts \<le> 0"
  shows "step addr TimeoutFires c0 = c0"
  using timer_armed_iff [OF init] assms(2) by simp

text \<open>
  C3. A request with \<open>timeout = 0\<close> does not search without a bound: the default
  replaces the zero, the timer is armed with 60000 ms, and its firing rejects the search
  with the timeout error.
\<close>

theorem timeout_zero_arms_default_timer:
  "generateVanityWallet exEnv zeroTimeoutOptions
     = Inr (exStart\<lparr>timeoutMs := 60000, timerPending := True\<rparr>) \<and>
   outcome (step exAddr TimeoutFires (exStart\<lparr>timeoutMs := 60000, timerPending := True\<rparr>))
     = Rejected SearchTimeout"
  by (simp add: generateVanityWallet_def exEnv_def zeroTimeoutOptions_def exStart_def exData_def
      effThreadsCount_def effTimeout_def effCaseSensitive_def spawn_def onTimeout_def)

subsection \<open>C4: the attempt count\<close>

text \<open>
  The running total never decreases on genuine events: every progress report of the
  worker script adds the batch size.
\<close>

lemma totalAttempts_monotone_step:
  assumes "genuine addr c0 ev" and "map data (workers c) = map data (workers c0)"
  shows "totalAttempts c \<le> totalAttempts (step addr ev c)"
proof (cases ev)
  case (Message i m)
  show ?thesis
  proof (cases m)
    case (FoundMsg pk sk k)
    with Message show ?thesis by simp
  next
    case (ProgressMsg k)
    show ?thesis
    proof (cases "i < length (workers c)")
      case True
      with assms(2) have "i < length (workers c0)" by (metis length_map)
      with assms(1) Message ProgressMsg obtain keys
        where "ProgressMsg k \<in> set (workerLoop addr (data (workers c0 ! i)) 0 keys)"
        by (auto simp: genuine_def workerScript_def)
      then have "k = progressInterval" by (rule workerLoop_progress)
      with Message ProgressMsg show ?thesis by (simp add: progressInterval_def)
    next
      case False
      with Message show ?thesis by simp
    qed
  qed
next
  case (WorkerError i)
  then show ?thesis by (simp add: onError_def Let_def)
next
  case (WorkerExit i code)
  then show ?thesis by (simp add: onExit_def)
next
  case TimeoutFires
  then show ?thesis by (simp add: onTimeout_def)
next
  case (IntervalFires t)
  then show ?thesis by (simp add: updateProgress_def)
qed

lemma totalAttempts_monotone:
  assumes "\<forall>ev \<in> set evs. genuine addr c0 ev" and "map data (workers c) = map data (workers c0)"
  shows "totalAttempts c \<le> totalAttempts (run addr evs c)"
  using assms
proof (induction evs arbitrary: c)
  case Nil
  then show ?case by simp
next
  case (Cons ev evs)
  then have "totalAttempts c \<le> totalAttempts (step addr ev c)"
    by (intro totalAttempts_monotone_step) simp_all
  moreover from Cons have "totalAttempts (step addr ev c) \<le> totalAttempts (run addr evs (step addr ev c))"
    by (intro Cons.IH) (simp_all add: step_data)
  ultimately show ?case by simp
qed

text \<open>
  C4. One worker generates 1001 keys, of which the last is the first match. It has
  posted one progress report of 1000 attempts, and reports the match with its own count
  of 1001 attempts; the total printed with the match is 2001: the 1000 attempts of the
  batch are counted twice.
\<close>

theorem winner_batches_counted_twice:
  "length (replicate 999 [2] @ [[2], [3 :: nat]]) = 1001 \<and>
   console (run exAddr (map (Message 0) (workerScript exAddr exData (replicate 999 [2] @ [[2], [3]])))
              exStart)
     = [LogStart 1 True, LogPrefix ''So'', LogFound 2001]"
  by (simp add: ex_thousand_and_one exStart_def)

subsection \<open>C5: a request without a pattern\<close>

text \<open>
  C5. When neither a prefix nor a suffix is given (absent or empty), the call throws
  before the promise exists and no worker is started. The error is the one for a missing
  pattern exactly when the call is made on the main thread; off the main thread the
  earlier check for that throws first.
\<close>

theorem no_pattern_is_rejected:
  assumes "\<not> truthyStr (prefix opts)" and "\<not> truthyStr (suffix opts)"
  shows "spawned (generateVanityWallet e opts) = 0 \<and>
         (generateVanityWallet e opts = Inl InvalidRequest \<or>
          generateVanityWallet e opts = Inl NotMainThread) \<and>
         (generateVanityWallet e opts = Inl InvalidRequest \<longleftrightarrow> isMainThread e)"
  using assms by (simp add: generateVanityWallet_def)

text \<open>
  The theorem at a request with an empty prefix and no suffix, on the main thread.
\<close>

theorem no_pattern_is_rejected_witness:
  "\<not> truthyStr (prefix (exOptions\<lparr>prefix := Some [], suffix := None\<rparr>)) \<and>
   \<not> truthyStr (suffix (exOptions\<lparr>prefix := Some [], suffix := None\<rparr>)) \<and>
   generateVanityWallet exEnv (exOptions\<lparr>prefix := Some [], suffix := None\<rparr>) = Inl InvalidRequest \<and>
   spawned (generateVanityWallet exEnv (exOptions\<lparr>prefix := Some [], suffix := None\<rparr>)) = 0"
proof -
  have h: "\<not> truthyStr (prefix (exOptions\<lparr>prefix := Some [], suffix := None\<rparr>))"
      "\<not> truthyStr (suffix (exOptions\<lparr>prefix := Some [], suffix := None\<rparr>))"
    by simp_all
  have m: "isMainThread exEnv" by (simp add: exEnv_def)
  from no_pattern_is_rejected [OF h, of exEnv] m h show ?thesis by simp
qed

subsection \<open>C6: a failing worker\<close>

text \<open>
  C6, as the specification states it, fails: after the only worker of the example
  search has failed and exited, every worker is terminated and no match was found, and the
  search is still pending.
\<close>

theorem all_workers_failed_counterexample:
  "list_all terminated (workers (run exAddr [WorkerError 0, WorkerExit 0 1] exStart)) \<and>
   \<not> walletFound (run exAddr [WorkerError 0, WorkerExit 0 1] exStart) \<and>
   outcome (run exAddr [WorkerError 0, WorkerExit 0 1] exStart) = Pending"
  by (simp add: exStart_def onError_def onExit_def terminateOne_def)

lemma failure_step_keeps:
  assumes "isWorkerFailure ev"
  shows "outcome (step addr ev c) = outcome c \<and> walletFound (step addr ev c) = walletFound c \<and>
         totalAttempts (step addr ev c) = totalAttempts c \<and>
         timerPending (step addr ev c) = timerPending c"
  using assms by (cases ev) (simp_all add: onError_def onExit_def Let_def)

lemma failure_run_keeps:
  assumes "\<forall>ev \<in> set evs. isWorkerFailure ev"
  shows "outcome (run addr evs c) = outcome c \<and> walletFound (run addr evs c) = walletFound c \<and>
         totalAttempts (run addr evs c) = totalAttempts c \<and>
         timerPending (run addr evs c) = timerPending c"
  using assms
proof (induction evs arbitrary: c)
  case Nil
  then show ?case by simp
next
  case (Cons ev evs)
  then have "isWorkerFailure ev" and "\<forall>ev \<in> set evs. isWorkerFailure ev" by simp_all
  from failure_step_keeps [OF this(1), of addr c] Cons.IH [OF this(2), of "step addr ev c"]
  show ?case by simp
qed

text \<open>
  C6, amended. While no match has been found, an execution error of a worker is
  printed, that worker is terminated, every other worker is left as it is, and the
  outcome of the search does not change. No sequence of worker failures, however many
  workers it takes down, changes the outcome or marks the search as found: a search
  whose workers have all failed stays pending until its timer fires.
\<close>

theorem worker_failure_is_isolated:
  assumes "i < length (workers c)" and "\<not> walletFound c"
    and "\<forall>ev \<in> set evs. isWorkerFailure ev"
  shows "console (step addr (WorkerError i) c) = console c @ [LogWorkerError (i + 1)] \<and>
         terminated (workers (step addr (WorkerError i) c) ! i) \<and>
         (\<forall>j. j \<noteq> i \<longrightarrow> workers (step addr (WorkerError i) c) ! j = workers c ! j) \<and>
         outcome (step addr (WorkerError i) c) = outcome c \<and>
         outcome (run addr evs c) = outcome c \<and>
         walletFound (run addr evs c) = walletFound c"
  using assms failure_run_keeps [OF assms(3), of addr c]
  by (simp add: onError_def Let_def terminateOne_def)

text \<open>
  The theorem at the example search and the failure of its only worker.
\<close>

theorem worker_failure_is_isolated_witness:
  "(0::nat) < length (workers exStart) \<and> \<not> walletFound exStart \<and>
   list_all isWorkerFailure [WorkerError 0, WorkerExit 0 1] \<and>
   console (step exAddr (WorkerError 0) exStart)
     = [LogStart 1 True, LogPrefix ''So'', LogWorkerError 1] \<and>
   terminated (workers (step exAddr (WorkerError 0) exStart) ! 0) \<and>
   outcome (run exAddr [WorkerError 0, WorkerExit 0 1] exStart) = Pending"
proof -
  have h: "0 < length (workers exStart)" "\<not> walletFound exStart"
      "\<forall>ev \<in> set [WorkerError 0, WorkerExit 0 1]. isWorkerFailure ev"
    by (simp_all add: exStart_def)
  have o: "outcome exStart = Pending" "console exStart = [LogStart 1 True, LogPrefix ''So'']"
    by (simp_all add: exStart_def)
  from worker_failure_is_isolated [OF h, of exAddr] h o show ?thesis
    by (simp del: step.simps run.simps)
qed

section \<open>Theorems about the numbers\<close>

subsection \<open>Rounding to a double\<close>

lemma bitlen_powi:
  assumes "0 < (a::int)"
  shows "2 powi (bitlen a - 1) \<le> (of_int a :: rat)" and "(of_int a :: rat) < 2 powi (bitlen a)"
proof -
  from bitlen_bounds [OF assms] have l: "2 ^ nat (bitlen a - 1) \<le> a" and u: "a < 2 ^ nat (bitlen a)"
    by simp_all
  from assms have b1: "1 \<le> bitlen a" by (smt (verit) bitlen_eq_zero_iff bitlen_nonneg)
  from l have "(of_int (2 ^ nat (bitlen a - 1)) :: rat) \<le> of_int a" by (simp only: of_int_le_iff)
  with b1 show "2 powi (bitlen a - 1) \<le> (of_int a :: rat)" by (simp add: power_int_def)
  from u have "(of_int a :: rat) < of_int (2 ^ nat (bitlen a))" by (simp only: of_int_less_iff)
  with b1 show "(of_int a :: rat) < 2 powi (bitlen a)" by (simp add: power_int_def)
qed

lemma powi2_add: "(2::rat) powi (m + n) = 2 powi m * 2 powi n"
  by (simp add: power_int_add)

lemma powi2_diff: "(2::rat) powi (m - n) = 2 powi m / 2 powi n"
  by (simp add: power_int_diff)

lemma powi2_pos: "0 < (2::rat) powi n"
  by simp

lemma powi2_mono: "m \<le> n \<Longrightarrow> (2::rat) powi m \<le> 2 powi n"
  by (rule power_int_increasing) simp_all

lemma expo_bounds:
  assumes "0 < q"
  shows "2 powi (expo q) \<le> q" and "q < 2 powi (expo q + 1)"
proof -
  obtain a b where ab: "quotient_of q = (a, b)" by (cases "quotient_of q")
  then have q: "q = of_int a / of_int b" and b: "0 < b"
    by (simp_all add: quotient_of_div quotient_of_denom_pos)
  with assms have a: "0 < a" by (simp add: zero_less_divide_iff)
  define k where "k = bitlen a - bitlen b"
  note A = bitlen_powi [OF a] and B = bitlen_powi [OF b]
  from b have bp: "0 < (of_int b :: rat)" by simp
  have "q < 2 powi (bitlen a) / 2 powi (bitlen b - 1)"
    unfolding q using A(2) B(1) bp a
    by (intro frac_less) simp_all
  also have "\<dots> = 2 powi (bitlen a - (bitlen b - 1))"
    by (simp only: powi2_diff)
  also have "bitlen a - (bitlen b - 1) = k + 1"
    by (simp add: k_def)
  finally have up: "q < 2 powi (k + 1)" .
  have "k - 1 = (bitlen a - 1) - bitlen b"
    by (simp add: k_def)
  then have "(2::rat) powi (k - 1) = 2 powi (bitlen a - 1) / 2 powi (bitlen b)"
    by (simp only: powi2_diff)
  also have "\<dots> < q"
    unfolding q using A(1) B(2) bp a
    by (intro frac_less2) simp_all
  finally have lo: "2 powi (k - 1) < q" .
  have e: "expo q = (if 2 powi k \<le> q then k else k - 1)"
    by (simp add: expo_def ab k_def)
  from lo show "2 powi (expo q) \<le> q" by (simp add: e)
  from up show "q < 2 powi (expo q + 1)" by (auto simp: e not_le)
qed


lemma roundHalfEven_lower: "\<lfloor>m\<rfloor> \<le> roundHalfEven m"
  by (simp add: roundHalfEven_def Let_def)

lemma roundHalfEven_cases:
  "roundHalfEven m = \<lfloor>m\<rfloor> \<or> (roundHalfEven m = \<lfloor>m\<rfloor> + 1 \<and> 1 / 2 \<le> m - of_int \<lfloor>m\<rfloor>)"
  by (auto simp: roundHalfEven_def Let_def)

lemma roundHalfEven_upper: "of_int (roundHalfEven m) \<le> m + 1 / 2"
proof -
  have f: "of_int \<lfloor>m\<rfloor> \<le> m" by (rule of_int_floor_le)
  from roundHalfEven_cases [of m] show ?thesis
  proof
    assume a: "roundHalfEven m = \<lfloor>m\<rfloor>"
    from f have "of_int \<lfloor>m\<rfloor> \<le> m + 1 / 2" by linarith
    with a show ?thesis by (simp only:)
  next
    assume "roundHalfEven m = \<lfloor>m\<rfloor> + 1 \<and> 1 / 2 \<le> m - of_int \<lfloor>m\<rfloor>"
    then show ?thesis by simp
  qed
qed

lemma powi2_less_cancel: "(2::rat) powi m < 2 powi n \<Longrightarrow> m < n"
proof (rule ccontr)
  assume l: "(2::rat) powi m < 2 powi n" and "\<not> m < n"
  then have "n \<le> m" by simp
  then have "(2::rat) powi n \<le> 2 powi m" by (rule powi2_mono)
  with l show False by simp
qed

lemma roundDouble_rounded:
  assumes "q \<noteq> 0"
  defines "e \<equiv> max (expo \<bar>q\<bar>) (- 1022)"
  defines "r \<equiv> of_int (roundHalfEven (\<bar>q\<bar> / 2 powi (e - 52))) * 2 powi (e - 52)"
  shows "roundDouble q =
           (if 2 powi 1024 \<le> r then (if 0 < q then PosInfinity else NegInfinity)
            else Num (sgn q * r))"
  using assms(1) by (simp add: roundDouble_def Let_def e_def r_def)

lemma rounded_upper:
  fixes q :: rat
  assumes "0 < q"
  shows "of_int (roundHalfEven (q / 2 powi k)) * 2 powi k \<le> q + 2 powi k / 2"
proof -
  have "of_int (roundHalfEven (q / 2 powi k)) * (2::rat) powi k \<le> (q / 2 powi k + 1 / 2) * 2 powi k"
    by (intro mult_right_mono roundHalfEven_upper) simp
  also have "\<dots> = q + 2 powi k / 2"
    by (simp add: field_simps)
  finally show ?thesis .
qed

lemma rounded_lower:
  fixes q :: rat
  assumes "2 powi (k + 52) \<le> q"
  shows "(2::rat) powi (k + 52) \<le> of_int (roundHalfEven (q / 2 powi k)) * 2 powi k"
proof -
  have "(2::rat) powi (k + 52) = 2 powi k * 2 ^ 52"
    by (simp add: powi2_add)
  with assms have "(2::rat) ^ 52 \<le> q / 2 powi k"
    by (simp add: field_simps)
  then have "of_int (2 ^ 52) \<le> q / 2 powi k" by simp
  then have "(2::int) ^ 52 \<le> \<lfloor>q / 2 powi k\<rfloor>" by (simp only: le_floor_iff)
  with roundHalfEven_lower [of "q / 2 powi k"] have "(2::int) ^ 52 \<le> roundHalfEven (q / 2 powi k)"
    by linarith
  then have "(of_int (2 ^ 52) :: rat) \<le> of_int (roundHalfEven (q / 2 powi k))"
    by (simp only: of_int_le_iff)
  then have "(2::rat) ^ 52 * 2 powi k \<le> of_int (roundHalfEven (q / 2 powi k)) * (2::rat) powi k"
    by (intro mult_right_mono) simp_all
  then show ?thesis by (simp add: powi2_add mult.commute)
qed

lemma roundDouble_finite:
  assumes "\<bar>q\<bar> < 2 powi 1023"
  shows "\<exists>x. roundDouble q = Num x \<and> \<bar>x\<bar> \<le> \<bar>q\<bar> + 2 powi (max (expo \<bar>q\<bar>) (- 1022) - 53)"
proof (cases "q = 0")
  case True
  then show ?thesis by (simp add: roundDouble_def)
next
  case False
  define e where "e = max (expo \<bar>q\<bar>) (- 1022)"
  define r where "r = of_int (roundHalfEven (\<bar>q\<bar> / 2 powi (e - 52))) * (2::rat) powi (e - 52)"
  from False have pos: "0 < \<bar>q\<bar>" by simp
  from expo_bounds(1) [OF pos] assms have "(2::rat) powi (expo \<bar>q\<bar>) < 2 powi 1023"
    by (rule order.strict_trans1)
  then have "expo \<bar>q\<bar> < 1023" by (rule powi2_less_cancel)
  then have e: "e \<le> 1022" by (simp add: e_def)
  have half: "(2::rat) powi (e - 52) / 2 = 2 powi (e - 53)"
    using powi2_diff [of "e - 52" 1] by simp
  have r0: "0 \<le> r"
  proof -
    have "0 \<le> \<bar>q\<bar> / 2 powi (e - 52)" by simp
    then have "0 \<le> \<lfloor>\<bar>q\<bar> / 2 powi (e - 52)\<rfloor>" by (simp only: zero_le_floor)
    with roundHalfEven_lower [of "\<bar>q\<bar> / 2 powi (e - 52)"]
    have "0 \<le> roundHalfEven (\<bar>q\<bar> / 2 powi (e - 52))" by linarith
    then show ?thesis by (simp add: r_def)
  qed
  from rounded_upper [OF pos, of "e - 52"] have ru: "r \<le> \<bar>q\<bar> + 2 powi (e - 53)"
    by (simp add: r_def half)
  from e have "(2::rat) powi (e - 53) \<le> 2 powi 1023" by (intro powi2_mono) simp
  with ru assms have "r < 2 powi 1023 + 2 powi 1023" by linarith
  also have "(2::rat) powi 1023 + 2 powi 1023 = 2 powi 1024"
    using powi2_add [of 1023 1] by simp
  finally have fin: "\<not> 2 powi 1024 \<le> r" by simp
  from roundDouble_rounded [OF False] fin have "roundDouble q = Num (sgn q * r)"
    by (simp add: r_def e_def)
  moreover from r0 False have "\<bar>sgn q * r\<bar> = r" by (simp add: abs_mult)
  ultimately show ?thesis using ru by (simp add: e_def)
qed

lemma roundDouble_normal:
  assumes lo: "2 powi (- 1022) \<le> \<bar>q\<bar>" and hi: "\<bar>q\<bar> < 2 powi 1023"
  shows "\<exists>x. roundDouble q = Num x \<and> \<bar>q\<bar> / 2 < \<bar>x\<bar> \<and> \<bar>x\<bar> \<le> 2 * \<bar>q\<bar>"
proof -
  from lo have pos: "0 < \<bar>q\<bar>" using powi2_pos [of "- 1022"] by linarith
  then have nz: "q \<noteq> 0" by simp
  define e where "e = expo \<bar>q\<bar>"
  define r where "r = of_int (roundHalfEven (\<bar>q\<bar> / 2 powi (e - 52))) * (2::rat) powi (e - 52)"
  note E = expo_bounds [OF pos, folded e_def]
  from lo E(2) have "(2::rat) powi (- 1022) < 2 powi (e + 1)"
    by (rule order.strict_trans1)
  then have "- 1022 < e + 1" by (rule powi2_less_cancel)
  then have emax: "max (expo \<bar>q\<bar>) (- 1022) = e" by (simp add: e_def)
  from E(1) hi have "(2::rat) powi e < 2 powi 1023"
    by (rule order.strict_trans1)
  then have "e < 1023" by (rule powi2_less_cancel)
  then have e: "e \<le> 1022" by simp
  have half: "(2::rat) powi (e - 52) / 2 = 2 powi (e - 53)"
    using powi2_diff [of "e - 52" 1] by simp
  have two: "(2::rat) powi (e + 1) = 2 * 2 powi e"
    using powi2_add [of e 1] by simp
  from rounded_lower [of "e - 52" "\<bar>q\<bar>"] E(1) have rl: "2 powi e \<le> r"
    by (simp add: r_def)
  from rounded_upper [OF pos, of "e - 52"] have ru: "r \<le> \<bar>q\<bar> + 2 powi (e - 53)"
    by (simp add: r_def half)
  have "(2::rat) powi (e - 53) \<le> 2 powi e" by (intro powi2_mono) simp
  with E(1) ru have r2: "r \<le> 2 * \<bar>q\<bar>" by linarith
  from e have "(2::rat) powi (e - 53) \<le> 2 powi 1023" by (intro powi2_mono) simp
  with ru hi have "r < 2 powi 1023 + 2 powi 1023" by linarith
  also have "(2::rat) powi 1023 + 2 powi 1023 = 2 powi 1024"
    using powi2_add [of 1023 1] by simp
  finally have fin: "\<not> 2 powi 1024 \<le> r" by simp
  from roundDouble_rounded [OF nz] fin emax have "roundDouble q = Num (sgn q * r)"
    by (simp add: r_def)
  moreover have "\<bar>sgn q * r\<bar> = r"
  proof -
    from rl powi2_pos [of e] have "0 < r" by linarith
    with nz show ?thesis by (simp add: abs_mult)
  qed
  moreover from rl E(2) two have "\<bar>q\<bar> / 2 < r" by linarith
  ultimately show ?thesis using r2 by simp
qed

lemma powi2_strict_mono: "m < n \<Longrightarrow> (2::rat) powi m < 2 powi n"
  by (rule power_int_strict_increasing) simp_all

lemma expo_unique:
  assumes "2 powi e \<le> q" and "q < 2 powi (e + 1)"
  shows "expo q = e"
proof -
  from assms(1) have pos: "0 < q" using powi2_pos [of e] by linarith
  note E = expo_bounds [OF pos]
  from assms(1) E(2) have "(2::rat) powi e < 2 powi (expo q + 1)" by (rule order.strict_trans1)
  then have "e < expo q + 1" by (rule powi2_less_cancel)
  moreover from E(1) assms(2) have "(2::rat) powi (expo q) < 2 powi (e + 1)"
    by (rule order.strict_trans1)
  then have "expo q < e + 1" by (rule powi2_less_cancel)
  ultimately show ?thesis by simp
qed

lemma roundDouble_eval:
  assumes lo: "2 powi e \<le> \<bar>q\<bar>" and hi: "\<bar>q\<bar> < 2 powi (e + 1)"
    and e1: "- 1022 \<le> e" and e2: "e \<le> 1022"
  shows "roundDouble q
           = Num (sgn q * (of_int (roundHalfEven (\<bar>q\<bar> / 2 powi (e - 52))) * 2 powi (e - 52)))"
proof -
  from lo have pos: "0 < \<bar>q\<bar>" using powi2_pos [of e] by linarith
  then have nz: "q \<noteq> 0" by simp
  have ex: "expo \<bar>q\<bar> = e" using lo hi by (rule expo_unique)
  with e1 have emax: "max (expo \<bar>q\<bar>) (- 1022) = e" by simp
  define r where "r = of_int (roundHalfEven (\<bar>q\<bar> / 2 powi (e - 52))) * (2::rat) powi (e - 52)"
  have half: "(2::rat) powi (e - 52) / 2 = 2 powi (e - 53)"
    using powi2_diff [of "e - 52" 1] by simp
  from rounded_upper [OF pos, of "e - 52"] have ru: "r \<le> \<bar>q\<bar> + 2 powi (e - 53)"
    by (simp add: r_def half)
  from e2 have "(2::rat) powi (e - 53) \<le> 2 powi 1023" by (intro powi2_mono) simp
  moreover from e2 have "(2::rat) powi (e + 1) \<le> 2 powi 1023" by (intro powi2_mono) simp
  ultimately have "r < 2 powi 1023 + 2 powi 1023" using ru hi by linarith
  also have "(2::rat) powi 1023 + 2 powi 1023 = 2 powi 1024"
    using powi2_add [of 1023 1] by simp
  finally have fin: "\<not> 2 powi 1024 \<le> r" by simp
  from roundDouble_rounded [OF nz] fin emax show ?thesis
    by (simp add: r_def)
qed

lemma roundHalfEven_of_int: "roundHalfEven (of_int k) = k"
  by (simp add: roundHalfEven_def)

lemma roundDouble_of_int:
  assumes "\<bar>n\<bar> < 2 ^ 53"
  shows "roundDouble (of_int n) = Num (of_int n)"
proof (cases "n = 0")
  case True
  then show ?thesis by (simp add: roundDouble_def)
next
  case False
  define q :: rat where "q = of_int n"
  define e where "e = expo \<bar>q\<bar>"
  from False have "1 \<le> \<bar>n\<bar>" by simp
  then have "(of_int 1 :: rat) \<le> of_int \<bar>n\<bar>" by (simp only: of_int_le_iff)
  then have q1: "1 \<le> \<bar>q\<bar>" by (simp add: q_def)
  from assms have "(of_int \<bar>n\<bar> :: rat) < of_int (2 ^ 53)" by (simp only: of_int_less_iff)
  then have q2: "\<bar>q\<bar> < 2 powi 53" by (simp add: q_def)
  from q1 have pos: "0 < \<bar>q\<bar>" by linarith
  note E = expo_bounds [OF pos, folded e_def]
  from q1 E(2) have "(2::rat) powi 0 < 2 powi (e + 1)" by simp
  then have "0 < e + 1" by (rule powi2_less_cancel)
  then have e0: "0 \<le> e" by simp
  from E(1) q2 have "(2::rat) powi e < 2 powi 53" by (rule order.strict_trans1)
  then have e53: "e < 53" by (rule powi2_less_cancel)
  define k where "k = nat (52 - e)"
  from e53 have ek: "e - 52 = - int k" by (simp add: k_def)
  have ulp: "(2::rat) powi (e - 52) = 1 / 2 ^ k"
    unfolding ek by (simp add: power_int_minus field_simps)
  have "\<bar>q\<bar> / 2 powi (e - 52) = of_int (\<bar>n\<bar> * 2 ^ k)"
    by (simp add: ulp q_def)
  then have "roundHalfEven (\<bar>q\<bar> / 2 powi (e - 52)) = \<bar>n\<bar> * 2 ^ k"
    by (simp only: roundHalfEven_of_int)
  then have r: "of_int (roundHalfEven (\<bar>q\<bar> / 2 powi (e - 52))) * 2 powi (e - 52) = \<bar>q\<bar>"
    by (simp add: ulp q_def)
  from e0 e53 have "- 1022 \<le> e" and "e \<le> 1022" by simp_all
  from roundDouble_eval [OF E this] have "roundDouble q = Num (sgn q * \<bar>q\<bar>)"
    by (simp only: r)
  then show ?thesis by (simp add: q_def sgn_mult_abs)
qed

lemma roundDouble_numeral:
  assumes "numeral k < (2::int) ^ 53"
  shows "roundDouble (numeral k) = Num (numeral k)"
  using roundDouble_of_int [of "numeral k"] assms by simp

lemma round_1e17: "roundDouble 100000000000000000 = Num 100000000000000000"
proof -
  have "roundHalfEven (100000000000000000 / 16) = 6250000000000000" by code_simp
  with roundDouble_eval [of 56 100000000000000000] show ?thesis by simp
qed

lemma round_1e17_5000: "roundDouble 100000000000005000 = Num 100000000000004992"
proof -
  have "roundHalfEven (100000000000005000 / 16) = 6250000000000312" by code_simp
  with roundDouble_eval [of 56 100000000000005000] show ?thesis by simp
qed

lemma round_5_2: "roundDouble (5 / 2) = Num (5 / 2)"
proof -
  have "roundHalfEven (5 / 2 * 2251799813685248) = 5629499534213120" by code_simp
  with roundDouble_eval [of 1 "5 / 2"] show ?thesis by (simp add: power_int_minus)
qed

subsection \<open>C7: the rate of the progress line\<close>

lemma rate_zero_elapsed:
  "rate n start start = (if n = 0 then NaN else if 0 < n then PosInfinity else NegInfinity)"
  by (simp add: rate_def js_sub_def roundDouble_def)

lemma rate_finite:
  assumes ne: "t \<noteq> start" and n: "\<bar>n\<bar> \<le> 2 ^ 53" and d: "\<bar>t - start\<bar> \<le> 2 ^ 53"
  shows "isFinite (rate n start t)"
proof -
  define d0 :: rat where "d0 = of_int (t - start)"
  from ne have "1 \<le> \<bar>t - start\<bar>" by simp
  then have "(of_int 1 :: rat) \<le> of_int \<bar>t - start\<bar>" by (simp only: of_int_le_iff)
  then have d1: "1 \<le> \<bar>d0\<bar>" by (simp add: d0_def)
  from d have "(of_int \<bar>t - start\<bar> :: rat) \<le> of_int (2 ^ 53)" by (simp only: of_int_le_iff)
  then have d2: "\<bar>d0\<bar> \<le> 2 ^ 53" by (simp add: d0_def)
  from n have "(of_int \<bar>n\<bar> :: rat) \<le> of_int (2 ^ 53)" by (simp only: of_int_le_iff)
  then have n2: "\<bar>of_int n :: rat\<bar> \<le> 2 ^ 53" by simp
  have small: "(2::rat) powi (- 1022) \<le> 2 powi (- 12)" by (rule powi2_mono) simp
  have s12: "(2::rat) powi (- 12) = 1 / 4096" by (simp add: power_int_minus)
  define M :: rat where "M = 2 ^ 53"
  have "(2::rat) powi 65 < 2 powi 1023" by (rule powi2_strict_mono) simp
  moreover have "M * 4000 \<le> 2 powi 65" by (simp add: M_def)
  ultimately have big: "M * 4000 < 2 powi 1023" by linarith
  have Mpos: "0 < M" by (simp add: M_def)
  note d2 = d2 [folded M_def] and n2 = n2 [folded M_def]
  have "2 powi (- 1022) \<le> \<bar>d0\<bar>" using small s12 d1 by linarith
  moreover have "\<bar>d0\<bar> < 2 powi 1023" using big Mpos d2 by linarith
  ultimately obtain x0 where x0: "roundDouble d0 = Num x0" "\<bar>d0\<bar> / 2 < \<bar>x0\<bar>" "\<bar>x0\<bar> \<le> 2 * \<bar>d0\<bar>"
    using roundDouble_normal [of d0] by blast
  define q1 where "q1 = x0 / 1000"
  have q1: "\<bar>q1\<bar> = \<bar>x0\<bar> / 1000" by (simp add: q1_def)
  have "2 powi (- 1022) \<le> \<bar>q1\<bar>" using small s12 d1 x0(2) q1 by linarith
  moreover have "\<bar>q1\<bar> < 2 powi 1023" using big Mpos d2 x0(3) q1 by linarith
  ultimately obtain x1 where x1: "roundDouble q1 = Num x1" "\<bar>q1\<bar> / 2 < \<bar>x1\<bar>"
    using roundDouble_normal [of q1] by blast
  from x1(2) x0(2) d1 q1 have x1p: "1 / 4000 < \<bar>x1\<bar>" by linarith
  then have x1nz: "x1 \<noteq> 0" by auto
  have sub: "js_sub (Num (of_int t)) (Num (of_int start)) = Num x0"
    using x0(1) by (simp add: js_sub_def d0_def)
  have el: "js_div (js_sub (Num (of_int t)) (Num (of_int start))) (Num 1000) = Num x1"
    using x1(1) by (simp add: sub q1_def)
  define q2 :: rat where "q2 = of_int n / x1"
  from x1nz have "\<bar>q2\<bar> * \<bar>x1\<bar> = \<bar>of_int n\<bar>" by (simp add: q2_def)
  moreover from x1p have "\<bar>q2\<bar> * (1 / 4000) \<le> \<bar>q2\<bar> * \<bar>x1\<bar>"
    by (intro mult_left_mono) simp_all
  ultimately have "\<bar>q2\<bar> \<le> M * 4000" using n2 by linarith
  then have "\<bar>q2\<bar> < 2 powi 1023" using big by linarith
  then obtain x2 where "roundDouble q2 = Num x2"
    using roundDouble_finite [of q2] by blast
  with x1nz show ?thesis
    by (simp add: rate_def el q2_def)
qed

lemma round_28_25: "roundDouble (28 / 25) = Num (1261007895663739 / 1125899906842624)"
proof -
  have "roundHalfEven (28 / 25 * 4503599627370496) = 5044031582654956" by code_simp
  with roundDouble_eval [of 0 "28 / 25"] show ?thesis by (simp add: power_int_minus)
qed

lemma round_rate_7000:
  "roundDouble (7000 / (1261007895663739 / 1125899906842624))
     = Num (6871947673599999 / 1099511627776)"
proof -
  have "roundHalfEven (7000 / (1261007895663739 / 1125899906842624) * 1099511627776)
      = 6871947673599999" by code_simp
  with roundDouble_eval [of 12 "7000 / (1261007895663739 / 1125899906842624)"] show ?thesis
    by (simp add: power_int_minus)
qed

lemma rate_example: "rate 7000 0 1120 = Num 6249"
proof -
  have "roundDouble (of_int 1120) = Num (of_int 1120)" by (rule roundDouble_of_int) simp
  then have s: "js_sub (Num 1120) (Num 0) = Num 1120"
    by (simp add: js_sub_def)
  have e: "js_div (Num 1120) (Num 1000) = Num (1261007895663739 / 1125899906842624)"
    using round_28_25 by simp
  have q: "js_div (Num 7000) (Num (1261007895663739 / 1125899906842624))
      = Num (6871947673599999 / 1099511627776)"
    using round_rate_7000 by simp
  have f: "\<lfloor>6871947673599999 / 1099511627776 :: rat\<rfloor> = 6249" by code_simp
  have "rate 7000 0 1120
      = js_floor (js_div (Num 7000) (js_div (js_sub (Num 1120) (Num 0)) (Num 1000)))"
    by (simp add: rate_def)
  also have "\<dots> = js_floor (Num (6871947673599999 / 1099511627776))"
    by (simp only: s e q)
  also have "\<dots> = Num 6249"
    using f by simp
  finally show ?thesis .
qed

text \<open>
  C7, as the specification states it, fails: when the clock reads the starting time at
  a tick, a positive attempt count gives the rate Infinity and a zero count gives NaN,
  and the progress line is printed with it.
\<close>

theorem rate_counterexample:
  "rate 1000 0 0 = PosInfinity \<and> rate 0 0 0 = NaN \<and>
   console (updateProgress 0 (exStart\<lparr>totalAttempts := 1000\<rparr>))
     = [LogStart 1 True, LogPrefix ''So'', ProgressLine 1000 PosInfinity]"
  by (simp add: rate_zero_elapsed updateProgress_def exStart_def)

text \<open>
  C7, amended. The rate is computed without a guard. For an attempt count and a clock
  difference that a double holds exactly (up to \<open>2 ^ 53\<close>), the rate is a finite number
  exactly when the clock at the tick differs from the starting time; when the two are
  equal it is an infinity or NaN.
\<close>

theorem rate_finite_iff_clock_moved:
  assumes "\<bar>n\<bar> \<le> 2 ^ 53" and "\<bar>t - start\<bar> \<le> 2 ^ 53"
  shows "isFinite (rate n start t) \<longleftrightarrow> t \<noteq> start"
proof (cases "t = start")
  case True
  then show ?thesis by (simp add: rate_zero_elapsed)
next
  case False
  with assms show ?thesis by (simp add: rate_finite)
qed

text \<open>
  The theorem at 7000 attempts after 1120 ms, where the two divisions of doubles give
  6249.999999999999 and the rate printed is 6249.
\<close>

theorem rate_finite_iff_clock_moved_witness:
  "\<bar>7000 :: int\<bar> \<le> 2 ^ 53 \<and> \<bar>1120 - 0 :: int\<bar> \<le> 2 ^ 53 \<and> (1120 :: int) \<noteq> 0 \<and>
   isFinite (rate 7000 0 1120) \<and> rate 7000 0 1120 = Num 6249"
proof -
  have h: "\<bar>7000 :: int\<bar> \<le> 2 ^ 53" "\<bar>1120 - 0 :: int\<bar> \<le> 2 ^ 53" by simp_all
  from rate_finite_iff_clock_moved [OF h] have "isFinite (rate 7000 0 1120)" by simp
  with h rate_example show ?thesis by simp
qed

section \<open>Theorems about the vanity search, continued\<close>

subsection \<open>C8: the defaults\<close>

text \<open>
  C8. In every search that starts, a worker count that is not given is replaced by the
  number of execution units minus one, at least 1, and that many workers are started; a
  case sensitivity that is not given is replaced by true, and every worker is given it.
\<close>

theorem defaults_applied:
  assumes "generateVanityWallet e opts = Inr c0"
  shows "(threadsCount opts = None \<longrightarrow> int (length (workers c0)) = max 1 (int (cpus e) - 1)) \<and>
         (caseSensitive opts = None \<longrightarrow>
            effCaseSensitive opts \<and> (\<forall>w \<in> set (workers c0). wd_caseSensitive (data w)))"
  using assms
  by (auto simp: generateVanityWallet_def Let_def effThreadsCount_def effCaseSensitive_def
      spawn_def split: if_splits)

text \<open>
  The theorem at a request with only a prefix, on a machine with two execution units.
\<close>

theorem defaults_applied_witness:
  "generateVanityWallet (exEnv\<lparr>cpus := 2\<rparr>) defaultOptions = Inr (exStart\<lparr>timeoutMs := 60000\<rparr>) \<and>
   int (length (workers (exStart\<lparr>timeoutMs := 60000\<rparr>))) = max 1 (int (cpus (exEnv\<lparr>cpus := 2\<rparr>)) - 1) \<and>
   effCaseSensitive defaultOptions \<and>
   list_all (wd_caseSensitive \<circ> data) (workers (exStart\<lparr>timeoutMs := 60000\<rparr>))"
proof -
  have c: "generateVanityWallet (exEnv\<lparr>cpus := 2\<rparr>) defaultOptions = Inr (exStart\<lparr>timeoutMs := 60000\<rparr>)"
    by (simp add: generateVanityWallet_def exEnv_def defaultOptions_def exStart_def exData_def
        effThreadsCount_def effTimeout_def effCaseSensitive_def spawn_def)
  have n: "threadsCount defaultOptions = None" "caseSensitive defaultOptions = None"
    by (simp_all add: defaultOptions_def)
  from defaults_applied [OF c] n c show ?thesis
    by (simp add: list_all_iff)
qed

section \<open>Theorems about the token and transfer scripts\<close>

subsection \<open>C9: the balance of a missing token account\<close>

text \<open>
  C9. When the balance lookup of the associated token account fails (the arguments
  were converted, the address derived and the mint read before it), the query returns the
  balance zero with the derived address, and prints nothing.
\<close>

theorem missing_token_account_is_zero:
  assumes "toPublicKey ch walletAddress = Inr w"
    and "toPublicKey ch mintAddress = Inr m"
    and "getAssociatedTokenAddress ch m w = Inr ata"
    and "getMint ch m = Inr mint"
    and "getTokenAccountBalance ch ata = Inl err"
  shows "getTokenBalance ch walletAddress mintAddress
           = ([], Inr \<lparr>balance = Num 0, tokenAccount = ata\<rparr>)"
  using assms by (simp add: getTokenBalance_def)

text \<open>The theorem at a wallet that holds no account of the example mint.\<close>

theorem missing_token_account_is_zero_witness:
  "toPublicKey exChain (AsString ''nobody'') = Inr ''nobody'' \<and>
   toPublicKey exChain (AsKey ''mint'') = Inr ''mint'' \<and>
   getAssociatedTokenAddress exChain ''mint'' ''nobody'' = Inr ''mint/nobody'' \<and>
   getMint exChain ''mint'' = Inr \<lparr>decimals = 6\<rparr> \<and>
   getTokenAccountBalance exChain ''mint/nobody'' = Inl (SdkFailure ''could not find account'') \<and>
   getTokenBalance exChain (AsString ''nobody'') (AsKey ''mint'')
     = ([], Inr \<lparr>balance = Num 0, tokenAccount = ''mint/nobody''\<rparr>)"
proof -
  have h: "toPublicKey exChain (AsString ''nobody'') = Inr ''nobody''"
      "toPublicKey exChain (AsKey ''mint'') = Inr ''mint''"
      "getAssociatedTokenAddress exChain ''mint'' ''nobody'' = Inr ''mint/nobody''"
      "getMint exChain ''mint'' = Inr \<lparr>decimals = 6\<rparr>"
      "getTokenAccountBalance exChain ''mint/nobody'' = Inl (SdkFailure ''could not find account'')"
    by (simp_all add: exChain_def)
  from missing_token_account_is_zero [OF h] h show ?thesis by simp
qed

text \<open>
  For comparison: an existing account, and a mint that does not exist, whose lookup
  error is printed and thrown again.
\<close>

lemma getTokenBalance_existing:
  "getTokenBalance exChain (AsString ''holder'') (AsKey ''mint'')
     = ([], Inr \<lparr>balance = Num (5 / 2), tokenAccount = ''mint/holder''\<rparr>)"
  by (simp add: getTokenBalance_def exChain_def roundDouble_numeral round_5_2)

lemma getTokenBalance_unknown_mint:
  "getTokenBalance exChain (AsString ''holder'') (AsKey ''nomint'')
     = ([ConsoleError (SdkFailure ''TokenAccountNotFoundError'')], Inl (SdkFailure ''TokenAccountNotFoundError''))"
  by (simp add: getTokenBalance_def exChain_def)

subsection \<open>C10: the balance check of transferSOL\<close>

text \<open>
  The threshold the balance is compared with, as the script computes it, and its value
  for a whole number of SOL in the range where doubles hold every integer.
\<close>

lemma threshold_exact:
  assumes "0 \<le> k" and "k * 1000000000 + 5000 < 2 ^ 53"
  shows "js_add (js_mul (Num (of_int k)) LAMPORTS_PER_SOL) (Num 5000)
           = Num (of_int (k * 1000000000 + 5000))"
proof -
  from assms have "\<bar>k * 1000000000\<bar> < 2 ^ 53" and "\<bar>k * 1000000000 + 5000\<bar> < 2 ^ 53"
    by simp_all
  then have "roundDouble (of_int (k * 1000000000)) = Num (of_int (k * 1000000000))"
    and "roundDouble (of_int (k * 1000000000 + 5000)) = Num (of_int (k * 1000000000 + 5000))"
    by (simp_all only: roundDouble_of_int)
  then show ?thesis by (simp add: LAMPORTS_PER_SOL_def)
qed

lemma threshold_1e8_sol:
  "js_add (js_mul (Num 100000000) LAMPORTS_PER_SOL) (Num 5000) = Num 100000000000004992"
  by (simp add: LAMPORTS_PER_SOL_def round_1e17 round_1e17_5000)




text \<open>
  With that one lamport more the transfer goes through; an amount that is not a whole
  number of lamports is refused when the instruction is built; and whatever the recipient address is, a call
  with a balance that low fails without touching a transaction.
\<close>

lemma transferSOL_enough:
  "transferSOL (exChainWith 1000005000) ''key'' ''friend'' (Num 1)
     = (let tx0 = \<lparr>instructions = [\<lparr>fromPubkey = ''sender'', toPubkey = ''friend'',
                                      lamports = 1000000000\<rparr>],
                    feePayer = None, recentBlockhash = None\<rparr>;
            tx = tx0\<lparr>feePayer := Some ''sender'', recentBlockhash := Some ''hash''\<rparr>
        in ([LogTransferStart (Num 1) ''sender'' ''friend'', Constructed tx0, Simulated tx,
             LogSimulation ''ok'', Submitted tx, LogSuccess ''sig'', LogSolscanLink ''sig''],
            Inr ''sig''))"
proof -
  have "js_add (js_mul (Num 1) LAMPORTS_PER_SOL) (Num 5000) = Num 1000005000"
    using threshold_exact [of 1] by simp
  moreover have "js_mul (Num 1) LAMPORTS_PER_SOL = Num 1000000000"
    by (simp add: LAMPORTS_PER_SOL_def roundDouble_numeral)
  ultimately show ?thesis
    by (simp add: transferSOL_def exChainWith_def exChain_def exTransfer_def)
qed

lemma transferSOL_fraction_of_lamport:
  "transferSOL (exChainWith 1000005000) ''key'' ''friend'' (Num (1 / 2147483648))
     = ([LogTransferStart (Num (1 / 2147483648)) ''sender'' ''friend'',
         ConsoleError (SdkFailure ''RangeError'')], Inl (SdkFailure ''RangeError''))"
proof -
  have "roundHalfEven (1953125 / 4194304 * 18014398509481984) = 8388608000000000"
    by code_simp
  with roundDouble_eval [of "- 2" "1953125 / 4194304"]
  have "roundDouble (1953125 / 4194304) = Num (1953125 / 4194304)"
    by (simp add: power_int_minus)
  then have m: "js_mul (Num (1 / 2147483648)) LAMPORTS_PER_SOL = Num (1953125 / 4194304)"
    by (simp add: LAMPORTS_PER_SOL_def)
  have "roundHalfEven (20973473125 / 4194304 * 1099511627776) = 5498070138880000"
    by code_simp
  with roundDouble_eval [of 12 "20973473125 / 4194304"]
  have "roundDouble (20973473125 / 4194304) = Num (20973473125 / 4194304)"
    by (simp add: power_int_minus)
  then have a: "js_add (Num (1953125 / 4194304)) (Num 5000) = Num (20973473125 / 4194304)"
    by simp
  have f: "\<lfloor>1953125 / 4194304 :: rat\<rfloor> = 0" by code_simp
  from m a f show ?thesis
    by (simp add: transferSOL_def exChainWith_def exChain_def exTransfer_def Let_def)
qed

lemma low_balance_never_touches_transaction:
  assumes "keypairFromSecret ch secretKeyText = Inr senderKeypair"
    and "getBalance ch (publicKey senderKeypair) = Inr senderBalance"
    and "js_lt (Num (of_int senderBalance)) (js_add (js_mul amount LAMPORTS_PER_SOL) (Num 5000))"
  shows "isl (snd (transferSOL ch secretKeyText recipientAddress amount)) \<and>
         filter touchesTransaction (fst (transferSOL ch secretKeyText recipientAddress amount)) = []"
  using assms by (simp add: transferSOL_def split: sum.splits)

end
